theory Spec2Isabelle
  imports
    Complex_Main
    "HOL-Library.AList"
    "HOL-Library.Option_ord"
    "HOL-Library.Stream"
    "HOL-Library.Multiset"
begin

section \<open>Python values, dictionaries and exceptions\<close>

text \<open>
  The genetic algorithm of \<^verbatim>\<open>vowel_classifier_ga.py\<close> works on genomes: lists of
  genes, each gene a Python \<^verbatim>\<open>dict\<close> from the keys \<^verbatim>\<open>num_neurons\<close>,
  \<^verbatim>\<open>activation\<close> and \<^verbatim>\<open>dropout_rate\<close> to an integer, a string and a float or
  \<^verbatim>\<open>None\<close>. A dictionary is kept as an association list in insertion order, since
  \<^verbatim>\<open>crossover\<close> and \<^verbatim>\<open>mutate\<close> iterate over the keys in that order. Floats are
  modelled by real numbers: the code only compares them and passes them on.
\<close>

datatype pyval = PyNone | PyInt int | PyFloat real | PyStr string

type_synonym gene = "(string \<times> pyval) list"

datatype error = KeyError string | ValueError | IndexError | ZeroDivisionError

text \<open>The truth value Python gives to a value in \<^verbatim>\<open>if v:\<close>.\<close>

fun truthy :: "pyval \<Rightarrow> bool" where
  "truthy PyNone = False"
| "truthy (PyInt n) = (n \<noteq> 0)"
| "truthy (PyFloat r) = (r \<noteq> 0)"
| "truthy (PyStr s) = (s \<noteq> [])"

text \<open>\<^verbatim>\<open>d[k]\<close> raises \<^verbatim>\<open>KeyError\<close> on a missing key; \<^verbatim>\<open>d[k] = v\<close> overwrites the
  entry in place or appends a new one.\<close>

definition getitem :: "gene \<Rightarrow> string \<Rightarrow> error + pyval" where
  "getitem d k = (case map_of d k of None \<Rightarrow> Inl (KeyError k) | Some v \<Rightarrow> Inr v)"

definition setitem :: "gene \<Rightarrow> string \<Rightarrow> pyval \<Rightarrow> gene" where
  "setitem d k v = AList.update k v d"

definition keys :: "gene \<Rightarrow> string list" where
  "keys d = map fst d"

section \<open>The architecture builder \<^verbatim>\<open>Net.__init__\<close>\<close>

text \<open>
  The modules of \<^verbatim>\<open>torch.nn\<close> that a model is assembled from. The constructors stand
  for the library calls \<^verbatim>\<open>nn.Linear(i, o)\<close>, \<^verbatim>\<open>nn.ReLU()\<close>, \<^verbatim>\<open>nn.LeakyReLU()\<close>,
  \<^verbatim>\<open>nn.Sigmoid()\<close>, \<^verbatim>\<open>nn.Tanh()\<close>, \<^verbatim>\<open>nn.Softmax()\<close> and \<^verbatim>\<open>nn.Dropout(p)\<close>; the
  arguments are kept as the Python values the code passes, and what the library does
  with them (it rejects a dropout probability outside the interval from 0 to 1) is not
  part of the model. The builder itself never constructs \<open>Softmax\<close>.
\<close>

datatype layer =
  Linear pyval pyval | ReLU | LeakyReLU | Sigmoid | Tanh | Softmax | Dropout pyval

text \<open>The \<^verbatim>\<open>if\<close>/\<^verbatim>\<open>elif\<close> chain on \<^verbatim>\<open>gene["activation"]\<close>; it has no \<^verbatim>\<open>else\<close>.\<close>

definition activation_layers :: "pyval \<Rightarrow> layer list" where
  "activation_layers a =
     (if a = PyStr ''relu'' then [ReLU]
      else if a = PyStr ''leaky_relu'' then [LeakyReLU]
      else if a = PyStr ''sigmoid'' then [Sigmoid]
      else if a = PyStr ''tanh'' then [Tanh]
      else [])"

text \<open>The loop over the genes, with the variables \<^verbatim>\<open>input_features\<close> and
  \<^verbatim>\<open>layers\<close> as accumulators.\<close>

fun hidden_layers :: "gene list \<Rightarrow> pyval \<Rightarrow> layer list \<Rightarrow> error + (layer list \<times> pyval)" where
  "hidden_layers [] input_features layers = Inr (layers, input_features)"
| "hidden_layers (gene # genome) input_features layers =
     (case getitem gene ''num_neurons'' of Inl e \<Rightarrow> Inl e | Inr n \<Rightarrow>
       (case getitem gene ''activation'' of Inl e \<Rightarrow> Inl e | Inr a \<Rightarrow>
         (case getitem gene ''dropout_rate'' of Inl e \<Rightarrow> Inl e | Inr p \<Rightarrow>
            hidden_layers genome n
              (layers @ [Linear input_features n] @ activation_layers a
                 @ (if truthy p then [Dropout p] else [])))))"

definition Net_init :: "gene list \<Rightarrow> int \<Rightarrow> int \<Rightarrow> error + layer list" where
  "Net_init genome D K =
     (case hidden_layers genome (PyInt D) [] of
        Inl e \<Rightarrow> Inl e
      | Inr (layers, input_features) \<Rightarrow> Inr (layers @ [Linear input_features (PyInt K)]))"

subsection \<open>The builder as the specification words it\<close>

text \<open>
  The specification types a gene: a neuron count, an activation out of five names, and
  an optional dropout rate. \<open>claimed_layers\<close> is the layer sequence of section 4.1 of
  the specification, written from its words: a fully-connected layer, the named
  nonlinearity, and a dropout layer whenever a rate is given.
\<close>

datatype act_name = Act_relu | Act_leaky_relu | Act_sigmoid | Act_tanh | Act_softmax

record gene_spec =
  num_neurons :: int
  activation :: act_name
  dropout_rate :: "real option"

fun activation_name :: "act_name \<Rightarrow> string" where
  "activation_name Act_relu = ''relu''"
| "activation_name Act_leaky_relu = ''leaky_relu''"
| "activation_name Act_sigmoid = ''sigmoid''"
| "activation_name Act_tanh = ''tanh''"
| "activation_name Act_softmax = ''softmax''"

fun named_nonlinearity :: "act_name \<Rightarrow> layer" where
  "named_nonlinearity Act_relu = ReLU"
| "named_nonlinearity Act_leaky_relu = LeakyReLU"
| "named_nonlinearity Act_sigmoid = Sigmoid"
| "named_nonlinearity Act_tanh = Tanh"
| "named_nonlinearity Act_softmax = Softmax"

fun rate_value :: "real option \<Rightarrow> pyval" where
  "rate_value None = PyNone"
| "rate_value (Some r) = PyFloat r"

text \<open>A dictionary carries a typed gene when its three keys hold the gene's values.\<close>

definition carries :: "gene \<Rightarrow> gene_spec \<Rightarrow> bool" where
  "carries d g \<longleftrightarrow>
     getitem d ''num_neurons'' = Inr (PyInt (num_neurons g)) \<and>
     getitem d ''activation'' = Inr (PyStr (activation_name (activation g))) \<and>
     getitem d ''dropout_rate'' = Inr (rate_value (dropout_rate g))"

fun claimed_layers :: "gene_spec list \<Rightarrow> int \<Rightarrow> int \<Rightarrow> layer list" where
  "claimed_layers [] w K = [Linear (PyInt w) (PyInt K)]"
| "claimed_layers (g # gs) w K =
     [Linear (PyInt w) (PyInt (num_neurons g)), named_nonlinearity (activation g)]
     @ (case dropout_rate g of None \<Rightarrow> [] | Some r \<Rightarrow> [Dropout (PyFloat r)])
     @ claimed_layers gs (num_neurons g) K"

text \<open>
  The sequence with the dropout test of the builder: as \<open>claimed_layers\<close>, but with a
  dropout layer only for a rate that is given and is not zero.
\<close>

fun built_layers :: "gene_spec list \<Rightarrow> int \<Rightarrow> int \<Rightarrow> layer list" where
  "built_layers [] w K = [Linear (PyInt w) (PyInt K)]"
| "built_layers (g # gs) w K =
     [Linear (PyInt w) (PyInt (num_neurons g)), named_nonlinearity (activation g)]
     @ (case dropout_rate g of
          None \<Rightarrow> []
        | Some r \<Rightarrow> if r = 0 then [] else [Dropout (PyFloat r)])
     @ built_layers gs (num_neurons g) K"

text \<open>
  The genes the library builds a model from: at least one neuron, and a dropout rate
  that is absent or a probability below 1.
\<close>

definition buildable :: "gene_spec \<Rightarrow> bool" where
  "buildable g \<longleftrightarrow>
     1 \<le> num_neurons g \<and>
     (case dropout_rate g of None \<Rightarrow> True | Some r \<Rightarrow> 0 \<le> r \<and> r < 1)"

section \<open>The random source\<close>

text \<open>
  The calls into Python's \<^verbatim>\<open>random\<close> module draw from an explicit source, a stream
  of natural numbers that every call advances. \<^verbatim>\<open>random.random()\<close> returns a multiple
  of \<open>2\<^sup>-\<^sup>5\<^sup>3\<close> in the interval from 0 (included) to 1 (excluded);
  \<^verbatim>\<open>random.choice(seq)\<close> returns an element of \<open>seq\<close> and raises \<^verbatim>\<open>IndexError\<close>
  on an empty sequence; \<^verbatim>\<open>random.sample(population, 2)\<close> returns the elements at
  two different positions and raises \<^verbatim>\<open>ValueError\<close> when there are fewer than two.
  Every outcome of the library call is the outcome of the model on some stream.
\<close>

type_synonym rng = "nat stream"

definition random_random :: "rng \<Rightarrow> real \<times> rng" where
  "random_random g = (real (shd g mod 2 ^ 53) / 2 ^ 53, stl g)"

definition random_choice :: "'a list \<Rightarrow> rng \<Rightarrow> error + ('a \<times> rng)" where
  "random_choice seq g =
     (if seq = [] then Inl IndexError else Inr (seq ! (shd g mod length seq), stl g))"

definition random_sample2 :: "'a list \<Rightarrow> rng \<Rightarrow> error + (('a \<times> 'a) \<times> rng)" where
  "random_sample2 population g =
     (if length population < 2 then Inl ValueError
      else
        let i = shd g mod length population;
            j = shd (stl g) mod (length population - 1)
        in Inr ((population ! i, population ! (if j < i then j else Suc j)), stl (stl g)))"

section \<open>Selection\<close>

text \<open>
  \<^verbatim>\<open>sorted(xs, key=k, reverse=True)\<close> is a stable sort in descending order of the key:
  the list is reversed, sorted stably in ascending order, and reversed again.
\<close>

definition sorted_reverse :: "('a \<Rightarrow> 'k::linorder) \<Rightarrow> 'a list \<Rightarrow> 'a list" where
  "sorted_reverse key xs = rev (sort_key key (rev xs))"

definition selection :: "'g list \<Rightarrow> real list \<Rightarrow> nat \<Rightarrow> 'g list" where
  "selection population fitnesses num_parents =
     take num_parents (map snd (sorted_reverse fst (zip fitnesses population)))"

section \<open>Genomes in the store\<close>

text \<open>
  \<^verbatim>\<open>mutate\<close> changes gene dictionaries in place, so genes live in a store: a gene
  object is an address, the store lists the dictionary at each allocated address, and
  a genome is the list of the addresses of its genes. Allocation appends to the store.
\<close>

type_synonym genome = "nat list"
type_synonym heap = "gene list"

definition allocated :: "heap \<Rightarrow> genome \<Rightarrow> bool" where
  "allocated h genome \<longleftrightarrow> (\<forall>a \<in> set genome. a < length h)"

definition genome_value :: "heap \<Rightarrow> genome \<Rightarrow> gene list" where
  "genome_value h genome = map (\<lambda>a. h ! a) genome"

subsection \<open>\<^verbatim>\<open>crossover\<close>\<close>

text \<open>The inner loop \<^verbatim>\<open>for key in gene1\<close>, filling \<^verbatim>\<open>child_gene\<close>.\<close>

fun crossover_keys ::
  "string list \<Rightarrow> gene \<Rightarrow> gene \<Rightarrow> gene \<Rightarrow> rng \<Rightarrow> error + (gene \<times> rng)" where
  "crossover_keys [] gene1 gene2 child_gene g = Inr (child_gene, g)"
| "crossover_keys (key # ks) gene1 gene2 child_gene g =
     (case random_choice [True, False] g of
        Inl e \<Rightarrow> Inl e
      | Inr (c, g') \<Rightarrow>
          (case getitem (if c then gene1 else gene2) key of
             Inl e \<Rightarrow> Inl e
           | Inr v \<Rightarrow> crossover_keys ks gene1 gene2 (setitem child_gene key v) g'))"

text \<open>The outer loop over \<^verbatim>\<open>zip(parent1, parent2)\<close>; every child gene is a new
  dictionary, allocated at the end of the store.\<close>

fun crossover_genes ::
  "(nat \<times> nat) list \<Rightarrow> genome \<Rightarrow> heap \<Rightarrow> rng \<Rightarrow> error + (genome \<times> heap \<times> rng)" where
  "crossover_genes [] child h g = Inr (child, h, g)"
| "crossover_genes ((a1, a2) # ps) child h g =
     (case crossover_keys (keys (h ! a1)) (h ! a1) (h ! a2) [] g of
        Inl e \<Rightarrow> Inl e
      | Inr (child_gene, g') \<Rightarrow>
          crossover_genes ps (child @ [length h]) (h @ [child_gene]) g')"

definition crossover :: "genome \<Rightarrow> genome \<Rightarrow> heap \<Rightarrow> rng \<Rightarrow> error + (genome \<times> heap \<times> rng)" where
  "crossover parent1 parent2 h g = crossover_genes (zip parent1 parent2) [] h g"

subsection \<open>\<^verbatim>\<open>mutate\<close>\<close>

definition neuron_choices :: "pyval list" where
  "neuron_choices = [PyInt 4, PyInt 8, PyInt 16, PyInt 32]"

definition activation_choices :: "pyval list" where
  "activation_choices = [PyStr ''relu'', PyStr ''sigmoid'', PyStr ''tanh'', PyStr ''softmax'']"

definition dropout_choices :: "pyval list" where
  "dropout_choices = [PyNone, PyFloat (1 / 10), PyFloat (2 / 10), PyFloat (3 / 10)]"

text \<open>The inner loop \<^verbatim>\<open>for key, _ in gene.items()\<close>.\<close>

fun mutate_items :: "string list \<Rightarrow> gene \<Rightarrow> rng \<Rightarrow> error + (gene \<times> rng)" where
  "mutate_items [] gene g = Inr (gene, g)"
| "mutate_items (key # ks) gene g =
     (if key = ''num_neurons'' then
        (case random_choice neuron_choices g of
           Inl e \<Rightarrow> Inl e
         | Inr (v, g') \<Rightarrow> mutate_items ks (setitem gene key v) g')
      else if key = ''activation'' then
        (case random_choice activation_choices g of
           Inl e \<Rightarrow> Inl e
         | Inr (v, g') \<Rightarrow> mutate_items ks (setitem gene key v) g')
      else if key = ''dropout_rate'' then
        (case random_choice dropout_choices g of
           Inl e \<Rightarrow> Inl e
         | Inr (v, g') \<Rightarrow> mutate_items ks (setitem gene key v) g')
      else mutate_items ks gene g)"

text \<open>The outer loop \<^verbatim>\<open>for gene in genome\<close>. The local variable \<^verbatim>\<open>mutation_rate\<close>
  is a parameter of the loop; \<^verbatim>\<open>mutate\<close> binds it to 0.1.\<close>

fun mutate_genes :: "real \<Rightarrow> genome \<Rightarrow> heap \<Rightarrow> rng \<Rightarrow> error + (heap \<times> rng)" where
  "mutate_genes mutation_rate [] h g = Inr (h, g)"
| "mutate_genes mutation_rate (a # genome) h g =
     (case random_random g of
        (u, g') \<Rightarrow>
          if u < mutation_rate then
            (case mutate_items (keys (h ! a)) (h ! a) g' of
               Inl e \<Rightarrow> Inl e
             | Inr (gene', g'') \<Rightarrow> mutate_genes mutation_rate genome (h[a := gene']) g'')
          else mutate_genes mutation_rate genome h g')"

definition mutate :: "genome \<Rightarrow> heap \<Rightarrow> rng \<Rightarrow> error + (genome \<times> heap \<times> rng)" where
  "mutate genome h g =
     (case mutate_genes (1 / 10) genome h g of
        Inl e \<Rightarrow> Inl e
      | Inr (h', g') \<Rightarrow> Inr (genome, h', g'))"

subsection \<open>Breeding the next generation\<close>

text \<open>The body of the \<^verbatim>\<open>while\<close> loop: one child from two sampled parents.\<close>

definition breed_child ::
  "genome list \<Rightarrow> heap \<Rightarrow> rng \<Rightarrow> error + (genome \<times> heap \<times> rng)" where
  "breed_child parents h g =
     (case random_sample2 parents g of
        Inl e \<Rightarrow> Inl e
      | Inr ((parent1, parent2), g1) \<Rightarrow>
          (case crossover parent1 parent2 h g1 of
             Inl e \<Rightarrow> Inl e
           | Inr (child, h2, g2) \<Rightarrow> mutate child h2 g2))"

function breed_loop ::
  "genome list \<Rightarrow> nat \<Rightarrow> genome list \<Rightarrow> heap \<Rightarrow> rng
     \<Rightarrow> error + (genome list \<times> heap \<times> rng)" where
  "breed_loop parents population_size next_generation h g =
     (if length next_generation < population_size then
        (case breed_child parents h g of
           Inl e \<Rightarrow> Inl e
         | Inr (child, h', g') \<Rightarrow>
             breed_loop parents population_size (next_generation @ [child]) h' g')
      else Inr (next_generation, h, g))"
  by pat_completeness auto
termination
  by (relation "measure (\<lambda>(parents, population_size, next_generation, h, g).
        population_size - length next_generation)") auto

declare breed_loop.simps [simp del]

text \<open>\<^verbatim>\<open>next_generation = parents[:]\<close> followed by the loop.\<close>

definition breed ::
  "genome list \<Rightarrow> nat \<Rightarrow> heap \<Rightarrow> rng \<Rightarrow> error + (genome list \<times> heap \<times> rng)" where
  "breed parents population_size h g = breed_loop parents population_size parents h g"

text \<open>A gene dictionary with exactly the three attribute keys.\<close>

definition attribute_keys :: "string set" where
  "attribute_keys = {''num_neurons'', ''activation'', ''dropout_rate''}"

definition well_keyed :: "gene \<Rightarrow> bool" where
  "well_keyed d \<longleftrightarrow> set (keys d) = attribute_keys"

text \<open>The candidate list that \<^verbatim>\<open>mutate\<close> draws from for a key, if it has one.\<close>

definition candidates :: "string \<Rightarrow> pyval list option" where
  "candidates key =
     (if key = ''num_neurons'' then Some neuron_choices
      else if key = ''activation'' then Some activation_choices
      else if key = ''dropout_rate'' then Some dropout_choices
      else None)"

text \<open>What mutation makes of a dictionary \<open>d\<close>: the same keys, every attribute key
  holding a value of its candidate list, every other key its old value.\<close>

definition resampled :: "gene \<Rightarrow> gene \<Rightarrow> bool" where
  "resampled d d' \<longleftrightarrow>
     keys d' = keys d \<and>
     (\<forall>k \<in> set (keys d).
        \<exists>v. getitem d' k = Inr v \<and>
          (case candidates k of Some cs \<Rightarrow> v \<in> set cs | None \<Rightarrow> getitem d k = Inr v))"

text \<open>A later store that still holds every object of \<open>h\<close>, unchanged.\<close>

definition extends :: "heap \<Rightarrow> heap \<Rightarrow> bool" where
  "extends h h' \<longleftrightarrow> length h \<le> length h' \<and> take (length h) h' = h"

text \<open>
  The children of the breeding step as the specification words them: \<open>k\<close> times in a
  row, two parents at different positions are sampled, crossed over, and the child is
  mutated; the store and the random source pass from one child to the next.
\<close>

fun bred_children ::
  "genome list \<Rightarrow> nat \<Rightarrow> heap \<Rightarrow> rng \<Rightarrow> error + (genome list \<times> heap \<times> rng)" where
  "bred_children parents 0 h g = Inr ([], h, g)"
| "bred_children parents (Suc k) h g =
     (case random_sample2 parents g of
        Inl e \<Rightarrow> Inl e
      | Inr ((parent1, parent2), g1) \<Rightarrow>
          (case crossover parent1 parent2 h g1 of
             Inl e \<Rightarrow> Inl e
           | Inr (crossed, h2, g2) \<Rightarrow>
               (case mutate crossed h2 g2 of
                  Inl e \<Rightarrow> Inl e
                | Inr (child, h3, g3) \<Rightarrow>
                    (case bred_children parents k h3 g3 of
                       Inl e \<Rightarrow> Inl e
                     | Inr (children, h', g') \<Rightarrow> Inr (child # children, h', g')))))"

section \<open>Tracking the best architecture\<close>

text \<open>
  The variables \<^verbatim>\<open>best_overall_fitness\<close> and \<^verbatim>\<open>best_overall_architecture\<close>. The
  fitness starts as \<^verbatim>\<open>float("-inf")\<close>, here \<open>None\<close>, which the order on
  \<open>real option\<close> puts below every \<open>Some x\<close>; the architecture starts as \<^verbatim>\<open>None\<close>.
\<close>

record 'g tracker =
  best_overall_fitness :: "real option"
  best_overall_architecture :: "'g option"

definition initial_tracker :: "'g tracker" where
  "initial_tracker = \<lparr>best_overall_fitness = None, best_overall_architecture = None\<rparr>"

text \<open>\<^verbatim>\<open>max(xs)\<close> raises \<^verbatim>\<open>ValueError\<close> on an empty list, \<^verbatim>\<open>xs.index(v)\<close> when
  \<open>v\<close> does not occur, and \<^verbatim>\<open>xs[i]\<close> raises \<^verbatim>\<open>IndexError\<close> out of range.\<close>

fun py_max :: "real list \<Rightarrow> error + real" where
  "py_max [] = Inl ValueError"
| "py_max (x # xs) = Inr (fold max xs x)"

fun py_index :: "'a list \<Rightarrow> 'a \<Rightarrow> error + nat" where
  "py_index [] v = Inl ValueError"
| "py_index (x # xs) v =
     (if x = v then Inr 0
      else case py_index xs v of Inl e \<Rightarrow> Inl e | Inr i \<Rightarrow> Inr (Suc i))"

definition py_nth :: "'a list \<Rightarrow> nat \<Rightarrow> error + 'a" where
  "py_nth xs i = (if i < length xs then Inr (xs ! i) else Inl IndexError)"

definition track_best :: "'g tracker \<Rightarrow> real list \<Rightarrow> 'g list \<Rightarrow> error + 'g tracker" where
  "track_best t fitnesses population =
     (case py_max fitnesses of Inl e \<Rightarrow> Inl e | Inr m \<Rightarrow>
       (case py_index fitnesses m of Inl e \<Rightarrow> Inl e | Inr max_fitness_idx \<Rightarrow>
         (case py_nth fitnesses max_fitness_idx of Inl e \<Rightarrow> Inl e
          | Inr best_fitness_this_gen \<Rightarrow>
            (case py_nth population max_fitness_idx of Inl e \<Rightarrow> Inl e
             | Inr best_architecture_this_gen \<Rightarrow>
                 if Some best_fitness_this_gen > best_overall_fitness t then
                   Inr \<lparr>best_overall_fitness = Some best_fitness_this_gen,
                        best_overall_architecture = Some best_architecture_this_gen\<rparr>
                 else Inr t))))"

text \<open>The generation loop, as far as it touches the tracker: one entry per generation,
  the fitness list of the generation and its population.\<close>

fun track_generations ::
  "'g tracker \<Rightarrow> (real list \<times> 'g list) list \<Rightarrow> error + 'g tracker" where
  "track_generations t [] = Inr t"
| "track_generations t ((fitnesses, population) # gens) =
     (case track_best t fitnesses population of
        Inl e \<Rightarrow> Inl e
      | Inr t' \<Rightarrow> track_generations t' gens)"

text \<open>The fitness values observed in a sequence of generations, and a tracker that
  holds a genome of these generations together with the fitness it was given.\<close>

definition observed :: "(real list \<times> 'g list) list \<Rightarrow> real set" where
  "observed gens = (\<Union>(fitnesses, population) \<in> set gens. set fitnesses)"

definition tracks :: "'g tracker \<Rightarrow> (real list \<times> 'g list) list \<Rightarrow> bool" where
  "tracks t gens \<longleftrightarrow>
     (\<exists>(fitnesses, population) \<in> set gens. \<exists>i < length fitnesses.
        best_overall_fitness t = Some (fitnesses ! i) \<and>
        best_overall_architecture t = Some (population ! i))"

section \<open>The fitness of a genome\<close>

text \<open>
  \<^verbatim>\<open>compute_fitness\<close> trains and evaluates a model through the tensor library. The
  library is a parameter: \<open>init_model\<close> creates the parameters and the optimizer state
  of a layer sequence, \<open>train_step\<close> is the body of the training loop on one batch
  (gradient reset, forward pass, loss, backward pass, optimizer step) and returns the
  new state with \<^verbatim>\<open>loss.item()\<close>, and \<open>forward\<close> is the output of the model on one
  sample in evaluation mode. A loader is the list of its batches, a validation batch a
  list of samples with their one-hot targets.
\<close>

text \<open>The position of the first greatest entry, as \<^verbatim>\<open>argmax\<close> returns it.\<close>

fun argmax_from :: "real list \<Rightarrow> nat \<Rightarrow> nat \<Rightarrow> real \<Rightarrow> nat" where
  "argmax_from [] i best v = best"
| "argmax_from (x # xs) i best v =
     (if v < x then argmax_from xs (Suc i) i x else argmax_from xs (Suc i) best v)"

fun argmax :: "real list \<Rightarrow> nat" where
  "argmax [] = 0"
| "argmax (x # xs) = argmax_from xs 1 0 x"

fun train_batches :: "('m \<Rightarrow> 'b \<Rightarrow> 'm \<times> real) \<Rightarrow> 'b list \<Rightarrow> 'm \<Rightarrow> real \<Rightarrow> 'm \<times> real" where
  "train_batches train_step [] model epoch_loss = (model, epoch_loss)"
| "train_batches train_step (b # bs) model epoch_loss =
     (case train_step model b of
        (model', loss) \<Rightarrow> train_batches train_step bs model' (epoch_loss + loss))"

text \<open>The loop \<^verbatim>\<open>for epoch in range(epochs)\<close>; the average loss it prints divides by
  the number of batches.\<close>

fun train_epochs ::
  "('m \<Rightarrow> 'b \<Rightarrow> 'm \<times> real) \<Rightarrow> 'b list \<Rightarrow> nat \<Rightarrow> 'm \<Rightarrow> real \<Rightarrow> error + ('m \<times> real)" where
  "train_epochs train_step train_loader 0 model total_loss = Inr (model, total_loss)"
| "train_epochs train_step train_loader (Suc n) model total_loss =
     (case train_batches train_step train_loader model 0 of
        (model', epoch_loss) \<Rightarrow>
          if length train_loader = 0 then Inl ZeroDivisionError
          else train_epochs train_step train_loader n model' (total_loss + epoch_loss))"

definition correct_in ::
  "('m \<Rightarrow> 'x \<Rightarrow> real list) \<Rightarrow> 'm \<Rightarrow> ('x \<times> real list) list \<Rightarrow> nat" where
  "correct_in forward model batch =
     length (filter (\<lambda>(x, target). argmax (forward model x) = argmax target) batch)"

fun evaluate_batches ::
  "('m \<Rightarrow> 'x \<Rightarrow> real list) \<Rightarrow> 'm \<Rightarrow> ('x \<times> real list) list list \<Rightarrow> nat \<Rightarrow> nat
     \<Rightarrow> nat \<times> nat" where
  "evaluate_batches forward model [] correct tot = (correct, tot)"
| "evaluate_batches forward model (batch # bs) correct tot =
     evaluate_batches forward model bs
       (correct + correct_in forward model batch) (tot + length batch)"

definition compute_fitness ::
  "(layer list \<Rightarrow> 'm) \<Rightarrow> ('m \<Rightarrow> 'b \<Rightarrow> 'm \<times> real) \<Rightarrow> ('m \<Rightarrow> 'x \<Rightarrow> real list)
     \<Rightarrow> gene list \<Rightarrow> 'b list \<Rightarrow> ('x \<times> real list) list list \<Rightarrow> nat \<Rightarrow> int \<Rightarrow> int
     \<Rightarrow> error + real" where
  "compute_fitness init_model train_step forward genome train_loader test_loader epochs D K =
     (case Net_init genome D K of
        Inl e \<Rightarrow> Inl e
      | Inr layers \<Rightarrow>
          (case train_epochs train_step train_loader epochs (init_model layers) 0 of
             Inl e \<Rightarrow> Inl e
           | Inr (model, total_loss) \<Rightarrow>
               (case evaluate_batches forward model test_loader 0 0 of
                  (correct, tot) \<Rightarrow>
                    if tot = 0 then Inl ZeroDivisionError
                    else Inr (real correct / real tot))))"

text \<open>One full pass over the training batches, and the samples of a loader.\<close>

definition full_pass :: "('m \<Rightarrow> 'b \<Rightarrow> 'm \<times> real) \<Rightarrow> 'b list \<Rightarrow> 'm \<Rightarrow> 'm" where
  "full_pass train_step train_loader model = fold (\<lambda>b m. fst (train_step m b)) train_loader model"

section \<open>Dictionaries and random draws\<close>

lemma getitem_in_keys: "k \<in> set (keys d) \<Longrightarrow> \<exists>v. getitem d k = Inr v"
proof -
  assume "k \<in> set (keys d)"
  then have "map_of d k \<noteq> None" by (simp add: keys_def map_of_eq_None_iff)
  then show ?thesis by (auto simp: getitem_def)
qed

lemma random_choice_in:
  "seq \<noteq> [] \<Longrightarrow> \<exists>v \<in> set seq. random_choice seq g = Inr (v, stl g)"
  by (simp add: random_choice_def)

lemma getitem_setitem:
  "getitem (setitem d k v) k' = (if k' = k then Inr v else getitem d k')"
  by (simp add: getitem_def setitem_def update_conv')

lemma keys_setitem:
  "keys (setitem d k v) = (if k \<in> set (keys d) then keys d else keys d @ [k])"
  by (simp add: keys_def setitem_def update_keys)

section \<open>Properties of the builder\<close>

lemma activation_layers_named:
  "a \<noteq> Act_softmax \<Longrightarrow>
   activation_layers (PyStr (activation_name a)) = [named_nonlinearity a]"
  by (cases a) (simp_all add: activation_layers_def)

lemma dropout_layers_rate:
  "(if truthy (rate_value p) then [Dropout (rate_value p)] else [])
     = (case p of None \<Rightarrow> [] | Some r \<Rightarrow> if r = 0 then [] else [Dropout (PyFloat r)])"
  by (cases p) simp_all

lemma hidden_layers_built:
  assumes "list_all2 carries ds gs"
    and "\<forall>g \<in> set gs. activation g \<noteq> Act_softmax"
  shows "\<exists>layers f. hidden_layers ds (PyInt w) acc = Inr (layers, f)
           \<and> layers @ [Linear f (PyInt K)] = acc @ built_layers gs w K"
  using assms
proof (induction ds gs arbitrary: w acc rule: list_all2_induct)
  case Nil
  show ?case by simp
next
  case (Cons d ds g gs)
  have g: "activation g \<noteq> Act_softmax"
    using Cons.prems by simp
  have rest: "\<forall>g \<in> set gs. activation g \<noteq> Act_softmax"
    using Cons.prems by simp
  define acc' where "acc' = acc @ [Linear (PyInt w) (PyInt (num_neurons g))]
           @ activation_layers (PyStr (activation_name (activation g)))
           @ (if truthy (rate_value (dropout_rate g))
              then [Dropout (rate_value (dropout_rate g))] else [])"
  obtain layers f where run: "hidden_layers ds (PyInt (num_neurons g)) acc' = Inr (layers, f)"
    and eq: "layers @ [Linear f (PyInt K)] = acc' @ built_layers gs (num_neurons g) K"
    using Cons.IH [OF rest] by blast
  have step: "hidden_layers (d # ds) (PyInt w) acc
                = hidden_layers ds (PyInt (num_neurons g)) acc'"
    using Cons.hyps(1) by (simp add: carries_def acc'_def)
  have "acc' @ built_layers gs (num_neurons g) K = acc @ built_layers (g # gs) w K"
    by (simp add: acc'_def activation_layers_named [OF g] dropout_layers_rate
        del: rate_value.simps truthy.simps)
  with run eq step show ?case by simp
qed

lemma built_layers_claimed:
  "\<forall>g \<in> set gs. dropout_rate g \<noteq> Some 0 \<Longrightarrow> built_layers gs w K = claimed_layers gs w K"
  by (induction gs arbitrary: w) (auto split: option.splits)

text \<open>
  Claim C1, as amended. For every genome whose genes carry the three keys, with at
  least one neuron, an activation among relu, leaky\_relu, sigmoid and tanh and a
  dropout rate that is null or a float from 0 up to, but not including, 1, and for
  all widths \<open>D\<close> and \<open>K\<close> of at least 1, the builder returns exactly this sequence:
  per gene a fully-connected layer from the current width to the gene's neuron count,
  the named nonlinearity, and a dropout layer exactly when the rate is neither null
  nor zero; then a last fully-connected layer to \<open>K\<close>. When no rate is zero this is
  the claimed sequence, and the empty genome gives the single layer from \<open>D\<close> to
  \<open>K\<close>.
\<close>

theorem Net_init_claimed_layers:
  assumes "list_all2 carries ds gs"
    and "1 \<le> D" and "1 \<le> K"
    and "\<forall>g \<in> set gs. buildable g \<and> activation g \<noteq> Act_softmax"
  shows "Net_init ds D K = Inr (built_layers gs D K)
         \<and> ((\<forall>g \<in> set gs. dropout_rate g \<noteq> Some 0)
              \<longrightarrow> Net_init ds D K = Inr (claimed_layers gs D K))
         \<and> Net_init [] D K = Inr [Linear (PyInt D) (PyInt K)]"
proof -
  have a: "\<forall>g \<in> set gs. activation g \<noteq> Act_softmax" using assms(4) by simp
  obtain layers f where "hidden_layers ds (PyInt D) [] = Inr (layers, f)"
    and "layers @ [Linear f (PyInt K)] = [] @ built_layers gs D K"
    using hidden_layers_built [OF assms(1) a] by blast
  then have b: "Net_init ds D K = Inr (built_layers gs D K)"
    by (simp add: Net_init_def)
  have e: "Net_init [] D K = Inr [Linear (PyInt D) (PyInt K)]"
    by (simp add: Net_init_def)
  from b e show ?thesis by (simp add: built_layers_claimed)
qed

theorem Net_init_claimed_layers_witness:
  "list_all2 carries
     [[(''num_neurons'', PyInt 8), (''activation'', PyStr ''tanh''),
       (''dropout_rate'', PyFloat (1 / 10))],
      [(''num_neurons'', PyInt 16), (''activation'', PyStr ''leaky_relu''),
       (''dropout_rate'', PyFloat 0)],
      [(''num_neurons'', PyInt 4), (''activation'', PyStr ''relu''),
       (''dropout_rate'', PyNone)]]
     [\<lparr>num_neurons = 8, activation = Act_tanh, dropout_rate = Some (1 / 10)\<rparr>,
      \<lparr>num_neurons = 16, activation = Act_leaky_relu, dropout_rate = Some 0\<rparr>,
      \<lparr>num_neurons = 4, activation = Act_relu, dropout_rate = None\<rparr>]
   \<and> Net_init
     [[(''num_neurons'', PyInt 8), (''activation'', PyStr ''tanh''),
       (''dropout_rate'', PyFloat (1 / 10))],
      [(''num_neurons'', PyInt 16), (''activation'', PyStr ''leaky_relu''),
       (''dropout_rate'', PyFloat 0)],
      [(''num_neurons'', PyInt 4), (''activation'', PyStr ''relu''),
       (''dropout_rate'', PyNone)]] 3 6
     = Inr [Linear (PyInt 3) (PyInt 8), Tanh, Dropout (PyFloat (1 / 10)),
            Linear (PyInt 8) (PyInt 16), LeakyReLU,
            Linear (PyInt 16) (PyInt 4), ReLU, Linear (PyInt 4) (PyInt 6)]"
proof -
  define gs where "gs =
     [\<lparr>num_neurons = 8, activation = Act_tanh, dropout_rate = Some (1 / 10)\<rparr>,
      \<lparr>num_neurons = 16, activation = Act_leaky_relu, dropout_rate = Some 0\<rparr>,
      \<lparr>num_neurons = 4, activation = Act_relu, dropout_rate = None :: real option\<rparr>]"
  define ds where "ds =
     [[(''num_neurons'', PyInt 8), (''activation'', PyStr ''tanh''),
       (''dropout_rate'', PyFloat (1 / 10))],
      [(''num_neurons'', PyInt 16), (''activation'', PyStr ''leaky_relu''),
       (''dropout_rate'', PyFloat 0)],
      [(''num_neurons'', PyInt 4), (''activation'', PyStr ''relu''),
       (''dropout_rate'', PyNone)]]"
  have c: "list_all2 carries ds gs"
    by (simp add: carries_def getitem_def ds_def gs_def)
  have d: "(1::int) \<le> 3" and k: "(1::int) \<le> 6" by simp_all
  have a: "\<forall>g \<in> set gs. buildable g \<and> activation g \<noteq> Act_softmax"
    by (simp add: buildable_def gs_def)
  note r = Net_init_claimed_layers [OF c d k a, THEN conjunct1]
  have "built_layers gs 3 6
     = [Linear (PyInt 3) (PyInt 8), Tanh, Dropout (PyFloat (1 / 10)),
            Linear (PyInt 8) (PyInt 16), LeakyReLU,
            Linear (PyInt 16) (PyInt 4), ReLU, Linear (PyInt 4) (PyInt 6)]"
    by (simp add: gs_def)
  with r have "Net_init ds 3 6
     = Inr [Linear (PyInt 3) (PyInt 8), Tanh, Dropout (PyFloat (1 / 10)),
            Linear (PyInt 8) (PyInt 16), LeakyReLU,
            Linear (PyInt 16) (PyInt 4), ReLU, Linear (PyInt 4) (PyInt 6)]"
    by simp
  with c show ?thesis unfolding ds_def gs_def by (rule conjI)
qed

text \<open>
  Claim C1 as it is written fails on a gene whose dropout rate is the float 0.0: the
  rate is not null, yet the truth test of the builder appends no dropout layer. It
  also fails on a gene named softmax, for which no nonlinearity is appended.
\<close>

theorem Net_init_claimed_layers_counterexample:
  "carries [(''num_neurons'', PyInt 4), (''activation'', PyStr ''relu''),
            (''dropout_rate'', PyFloat 0)]
     \<lparr>num_neurons = 4, activation = Act_relu, dropout_rate = Some 0\<rparr>
   \<and> Net_init [[(''num_neurons'', PyInt 4), (''activation'', PyStr ''relu''),
                (''dropout_rate'', PyFloat 0)]] 3 4
       = Inr [Linear (PyInt 3) (PyInt 4), ReLU, Linear (PyInt 4) (PyInt 4)]
   \<and> Net_init [[(''num_neurons'', PyInt 4), (''activation'', PyStr ''relu''),
                (''dropout_rate'', PyFloat 0)]] 3 4
       \<noteq> Inr (claimed_layers
               [\<lparr>num_neurons = 4, activation = Act_relu, dropout_rate = Some 0\<rparr>] 3 4)
   \<and> carries [(''num_neurons'', PyInt 4), (''activation'', PyStr ''softmax''),
            (''dropout_rate'', PyNone)]
     \<lparr>num_neurons = 4, activation = Act_softmax, dropout_rate = None\<rparr>
   \<and> Net_init [[(''num_neurons'', PyInt 4), (''activation'', PyStr ''softmax''),
                (''dropout_rate'', PyNone)]] 3 4
       \<noteq> Inr (claimed_layers
               [\<lparr>num_neurons = 4, activation = Act_softmax, dropout_rate = None\<rparr>] 3 4)"
  by (simp add: carries_def getitem_def Net_init_def activation_layers_def)

text \<open>
  Claim C8. A gene without the key \<^verbatim>\<open>dropout_rate\<close>, as in the docstring example
  of \<^verbatim>\<open>selection\<close>, makes the builder raise \<^verbatim>\<open>KeyError\<close> at the read
  \<^verbatim>\<open>gene["dropout_rate"]\<close>, where the claim has it succeed without a dropout layer.
\<close>

theorem Net_init_missing_dropout_rate:
  "Net_init [[(''num_neurons'', PyInt 32), (''activation'', PyStr ''relu'')]] 3 4
     = Inl (KeyError ''dropout_rate'')"
  by (simp add: Net_init_def getitem_def)

text \<open>
  Claim C10. A gene whose activation is none of relu, leaky\_relu, sigmoid and tanh
  does not make the builder raise, and no activation layer is appended for it: the
  loop goes on to the next gene with only the fully-connected layer and, when the rate
  is true, the dropout layer added; a genome of this one gene is built as these layers
  and the output layer.
\<close>

theorem Net_init_unknown_activation:
  assumes "getitem gene ''num_neurons'' = Inr n"
    and "getitem gene ''activation'' = Inr a"
    and "a \<notin> {PyStr ''relu'', PyStr ''leaky_relu'', PyStr ''sigmoid'', PyStr ''tanh''}"
    and "getitem gene ''dropout_rate'' = Inr p"
  shows "hidden_layers (gene # genome) w layers
           = hidden_layers genome n
               (layers @ Linear w n # (if truthy p then [Dropout p] else []))
         \<and> Net_init [gene] D K
           = Inr (Linear (PyInt D) n # (if truthy p then [Dropout p] else [])
                  @ [Linear n (PyInt K)])"
  using assms by (simp add: Net_init_def activation_layers_def)

theorem Net_init_unknown_activation_witness:
  "getitem [(''num_neurons'', PyInt 8), (''activation'', PyStr ''softmax''),
            (''dropout_rate'', PyFloat (2 / 10))] ''activation'' = Inr (PyStr ''softmax'')
   \<and> PyStr ''softmax''
       \<notin> {PyStr ''relu'', PyStr ''leaky_relu'', PyStr ''sigmoid'', PyStr ''tanh''}
   \<and> Net_init [[(''num_neurons'', PyInt 8), (''activation'', PyStr ''softmax''),
                (''dropout_rate'', PyFloat (2 / 10))]] 3 4
       = Inr [Linear (PyInt 3) (PyInt 8), Dropout (PyFloat (2 / 10)),
              Linear (PyInt 8) (PyInt 4)]"
  using Net_init_unknown_activation
    [of "[(''num_neurons'', PyInt 8), (''activation'', PyStr ''softmax''),
          (''dropout_rate'', PyFloat (2 / 10))]"
        "PyInt 8" "PyStr ''softmax''" "PyFloat (2 / 10)" "[]" "PyInt 3" "[]" 3 4]
  by (simp add: getitem_def)

section \<open>Properties of selection\<close>

lemma insort_key_map:
  fixes f :: "'b \<Rightarrow> 'k::linorder"
  shows "insort_key f (h x) (map h ys) = map h (insort_key (\<lambda>y. f (h y)) x ys)"
  by (induction ys) simp_all

lemma sort_key_map_natural:
  fixes f :: "'b \<Rightarrow> 'k::linorder"
  shows "sort_key f (map h xs) = map h (sort_key (\<lambda>y. f (h y)) xs)"
  by (induction xs) (simp_all add: insort_key_map)

lemma sorted_reverse_map:
  fixes f :: "'b \<Rightarrow> 'k::linorder"
  shows "sorted_reverse f (map h xs) = map h (sorted_reverse (\<lambda>y. f (h y)) xs)"
  by (simp add: sorted_reverse_def rev_map sort_key_map_natural)

lemma selection_map:
  "selection (map h population) fitnesses k = map h (selection population fitnesses k)"
proof -
  have "zip fitnesses (map h population) = map (apsnd h) (zip fitnesses population)"
    by (simp add: zip_map2 apsnd_def map_prod_def)
  then show ?thesis
    by (simp add: selection_def sorted_reverse_map take_map comp_def)
qed

lemma sorted_reverse_mset: "mset (sorted_reverse f xs) = mset xs"
  by (simp add: sorted_reverse_def)

lemma sorted_reverse_descending:
  "sorted_wrt (\<lambda>x y. f y \<le> f x) (sorted_reverse f xs)"
proof -
  have "sorted (map f (sort_key f (rev xs)))" by simp
  then have "sorted_wrt (\<lambda>x y. f x \<le> f y) (sort_key f (rev xs))"
    by (simp add: sorted_wrt_map)
  then show ?thesis
    by (simp add: sorted_reverse_def sorted_wrt_rev)
qed

lemma sorted_reverse_stable:
  "filter (\<lambda>y. f y = v) (sorted_reverse f xs) = filter (\<lambda>y. f y = v) xs"
  by (simp add: sorted_reverse_def rev_filter [symmetric] sort_key_stable)

lemma sorted_wrt_filter_nth:
  "sorted_wrt R (filter P xs) \<Longrightarrow> a < b \<Longrightarrow> b < length xs \<Longrightarrow> P (xs ! a) \<Longrightarrow> P (xs ! b)
   \<Longrightarrow> R (xs ! a) (xs ! b)"
proof (induction xs arbitrary: a b)
  case Nil
  then show ?case by simp
next
  case (Cons x xs)
  show ?case
  proof (cases a)
    case 0
    with Cons.prems obtain b' where b: "b = Suc b'" by (cases b) auto
    with Cons.prems 0 have "xs ! b' \<in> set (filter P xs)" by simp
    with Cons.prems 0 b show ?thesis by simp
  next
    case (Suc a')
    with Cons.prems obtain b' where b: "b = Suc b'" by (cases b) auto
    have "sorted_wrt R (filter P xs)"
      using Cons.prems(1) by (cases "P x") simp_all
    with Cons.IH [of a' b'] Cons.prems Suc b show ?thesis by simp
  qed
qed

lemma sorted_reverse_indices:
  fixes fitnesses :: "real list"
  assumes n_def: "n = length fitnesses"
    and s_def: "s = sorted_reverse fst (zip fitnesses [0..<n])"
    and perm_def: "perm = map snd s"
  shows "length perm = n"
    and "distinct perm"
    and "set perm = {..<n}"
    and "\<And>a b. a < b \<Longrightarrow> b < n \<Longrightarrow> fitnesses ! (perm ! b) \<le> fitnesses ! (perm ! a)"
    and "\<And>a b. a < b \<Longrightarrow> b < n \<Longrightarrow> fitnesses ! (perm ! a) = fitnesses ! (perm ! b)
            \<Longrightarrow> perm ! a < perm ! b"
proof -
  define z where "z = zip fitnesses [0..<n]"
  have s: "s = sorted_reverse fst z" by (simp add: s_def z_def)
  have mset_s: "mset s = mset z" by (simp add: s sorted_reverse_mset)
  have len_z: "length z = n" by (simp add: z_def n_def)
  have len_s: "length s = n" using mset_eq_length [OF mset_s] len_z by simp
  have "mset perm = image_mset snd (mset s)" by (simp add: perm_def)
  also have "\<dots> = mset (map snd z)" by (simp add: mset_s)
  also have "map snd z = [0..<n]" by (simp add: z_def n_def)
  finally have mset_perm: "mset perm = mset [0..<n]" .
  show len: "length perm = n" by (simp add: perm_def len_s)
  show "distinct perm" using mset_eq_imp_distinct_iff [OF mset_perm] by simp
  show "set perm = {..<n}" using mset_eq_setD [OF mset_perm] by (simp add: lessThan_atLeast0)
  have fit: "fst (s ! a) = fitnesses ! (perm ! a)" if "a < n" for a
  proof -
    have "s ! a \<in> set z" using that len_s mset_eq_setD [OF mset_s] nth_mem by metis
    then obtain m where "m < n" "s ! a = (fitnesses ! m, [0..<n] ! m)"
      unfolding z_def by (auto simp: in_set_zip n_def)
    then show ?thesis using that by (simp add: perm_def len_s)
  qed
  have desc: "fst (s ! b) \<le> fst (s ! a)" if "a < b" "b < n" for a b
    using sorted_wrt_nth_less [OF sorted_reverse_descending [of fst z], of a b] that len_s s
    by simp
  show "fitnesses ! (perm ! b) \<le> fitnesses ! (perm ! a)" if "a < b" "b < n" for a b
    using desc [OF that] fit [of a] fit [of b] that by simp
  show "perm ! a < perm ! b"
    if ab: "a < b" "b < n" and eq: "fitnesses ! (perm ! a) = fitnesses ! (perm ! b)" for a b
  proof -
    define v where "v = fst (s ! a)"
    have "sorted_wrt (<) (map snd z)"
      by (simp add: z_def n_def)
    then have "sorted_wrt (\<lambda>p q. snd p < snd q) z"
      by (simp only: sorted_wrt_map)
    then have "sorted_wrt (\<lambda>p q. snd p < snd q) (filter (\<lambda>p. fst p = v) z)"
      by (rule sorted_wrt_filter)
    then have "sorted_wrt (\<lambda>p q. snd p < snd q) (filter (\<lambda>p. fst p = v) s)"
      by (simp add: s sorted_reverse_stable)
    moreover have "fst (s ! a) = v" "fst (s ! b) = v"
      using fit [of a] fit [of b] ab eq by (simp_all add: v_def)
    ultimately have "snd (s ! a) < snd (s ! b)"
      using sorted_wrt_filter_nth [of "\<lambda>p q. snd p < snd q" "\<lambda>p. fst p = v" s a b] ab len_s
      by simp
    then show ?thesis using ab by (simp add: perm_def len_s)
  qed
qed

text \<open>
  Claim C4. For a population and a fitness list of the same length, and a number of
  parents no greater, \<^verbatim>\<open>selection\<close> returns the genomes at \<open>num_parents\<close> different
  positions \<open>idx\<close> of the population; every selected position has a fitness no less
  than every position that is not selected; the result is in descending order of
  fitness; and positions of equal fitness keep the order of the population, the
  earlier one being selected first.
\<close>

theorem selection_truncation:
  assumes len: "length population = length fitnesses"
    and k: "num_parents \<le> length population"
  shows "\<exists>idx. length idx = num_parents \<and> distinct idx
           \<and> set idx \<subseteq> {..<length population}
           \<and> selection population fitnesses num_parents = map (nth population) idx
           \<and> length (selection population fitnesses num_parents) = num_parents
           \<and> (\<forall>i \<in> set idx. \<forall>j < length population. j \<notin> set idx
                  \<longrightarrow> fitnesses ! j \<le> fitnesses ! i)
           \<and> (\<forall>a b. a < b \<and> b < num_parents
                  \<longrightarrow> fitnesses ! (idx ! b) \<le> fitnesses ! (idx ! a))
           \<and> (\<forall>a b. a < b \<and> b < num_parents
                    \<and> fitnesses ! (idx ! a) = fitnesses ! (idx ! b)
                  \<longrightarrow> idx ! a < idx ! b)
           \<and> (\<forall>i j. i < j \<and> j \<in> set idx \<and> fitnesses ! i = fitnesses ! j
                  \<longrightarrow> i \<in> set idx)"
proof -
  define n where "n = length fitnesses"
  define perm where "perm = map snd (sorted_reverse fst (zip fitnesses [0..<n]))"
  define idx where "idx = take num_parents perm"
  note P = sorted_reverse_indices [OF n_def refl perm_def]
  have kn: "num_parents \<le> n" using k len by (simp add: n_def)
  have l: "length idx = num_parents" using P(1) kn by (simp add: idx_def)
  have d: "distinct idx" using P(2) by (simp add: idx_def)
  have sub: "set idx \<subseteq> {..<length population}"
    using set_take_subset [of num_parents perm] P(3) len by (auto simp: idx_def n_def)
  have nth_idx: "idx ! a = perm ! a" if "a < num_parents" for a
    using that by (simp add: idx_def)
  have "map (nth population) [0..<n] = population"
    using len map_nth [of population] by (simp add: n_def)
  then have "selection population fitnesses num_parents
          = selection (map (nth population) [0..<n]) fitnesses num_parents"
    by simp
  also have "\<dots> = map (nth population) idx"
    by (simp add: selection_map) (simp add: selection_def idx_def perm_def)
  finally have sel: "selection population fitnesses num_parents = map (nth population) idx" .
  have pos: "\<exists>a < num_parents. i = perm ! a" if "i \<in> set idx" for i
    using that l by (metis in_set_conv_nth nth_idx)
  have out: "\<exists>b. num_parents \<le> b \<and> b < n \<and> j = perm ! b" if "j < n" "j \<notin> set idx" for j
  proof -
    from that P(3) have "j \<in> set perm" by simp
    then obtain b where b: "b < n" "j = perm ! b" using P(1) by (metis in_set_conv_nth)
    have "\<not> b < num_parents"
    proof
      assume "b < num_parents"
      then have "idx ! b \<in> set idx" using l by simp
      with that b \<open>b < num_parents\<close> show False by (simp add: nth_idx)
    qed
    then have "num_parents \<le> b" by simp
    with b show ?thesis by blast
  qed
  have c1: "\<forall>i \<in> set idx. \<forall>j < length population. j \<notin> set idx
              \<longrightarrow> fitnesses ! j \<le> fitnesses ! i"
  proof (intro ballI allI impI)
    fix i j assume i: "i \<in> set idx" and j: "j < length population" "j \<notin> set idx"
    from pos [OF i] obtain a where a: "a < num_parents" "i = perm ! a" by blast
    from out [of j] j len obtain b where b: "num_parents \<le> b" "b < n" "j = perm ! b"
      by (auto simp: n_def)
    from a b P(4) [of a b] show "fitnesses ! j \<le> fitnesses ! i" by simp
  qed
  have c2: "\<forall>a b. a < b \<and> b < num_parents \<longrightarrow> fitnesses ! (idx ! b) \<le> fitnesses ! (idx ! a)"
    using P(4) kn by (simp add: nth_idx)
  have c3: "\<forall>a b. a < b \<and> b < num_parents \<and> fitnesses ! (idx ! a) = fitnesses ! (idx ! b)
              \<longrightarrow> idx ! a < idx ! b"
  proof (intro allI impI, elim conjE)
    fix a b assume ab: "a < b" "b < num_parents"
      and eq: "fitnesses ! (idx ! a) = fitnesses ! (idx ! b)"
    then have "fitnesses ! (perm ! a) = fitnesses ! (perm ! b)" by (simp add: nth_idx)
    with P(5) [of a b] ab kn show "idx ! a < idx ! b" by (simp add: nth_idx)
  qed
  have c4: "\<forall>i j. i < j \<and> j \<in> set idx \<and> fitnesses ! i = fitnesses ! j \<longrightarrow> i \<in> set idx"
  proof (intro allI impI, elim conjE, rule ccontr)
    fix i j assume ij: "i < j" and j: "j \<in> set idx" and eq: "fitnesses ! i = fitnesses ! j"
      and i: "i \<notin> set idx"
    from pos [OF j] obtain a where a: "a < num_parents" "j = perm ! a" by blast
    have "j < n" using sub j len by (auto simp: n_def)
    with ij have "i < n" by simp
    from out [OF this i] obtain b where b: "num_parents \<le> b" "b < n" "i = perm ! b" by blast
    from P(5) [of a b] a b eq have "j < i" by simp
    with ij show False by simp
  qed
  from l d sub sel c1 c2 c3 c4 show ?thesis
    by (intro exI [of _ idx]) simp
qed

theorem selection_truncation_witness:
  "length [[0], [1], [2::nat]] = length [1 / 2, 9 / 10, 1 / 2 :: real]
   \<and> (2::nat) \<le> length [[0], [1], [2::nat]]
   \<and> selection [[0], [1], [2::nat]] [1 / 2, 9 / 10, 1 / 2] 2 = [[1], [0]]
   \<and> length (selection [[0], [1], [2::nat]] [1 / 2, 9 / 10, 1 / 2] 2) = 2"
proof -
  have h1: "length [[0], [1], [2::nat]] = length [1 / 2, 9 / 10, 1 / 2 :: real]" by simp
  have h2: "(2::nat) \<le> length [[0], [1], [2::nat]]" by simp
  have ev: "selection [[0], [1], [2::nat]] [1 / 2, 9 / 10, 1 / 2] 2 = [[1], [0]]"
    by (simp add: selection_def sorted_reverse_def)
  from selection_truncation [OF h1 h2]
  have "length (selection [[0], [1], [2::nat]] [1 / 2, 9 / 10, 1 / 2] 2) = 2" by blast
  with h1 h2 ev show ?thesis by blast
qed

section \<open>Properties of the best-architecture tracker\<close>

lemma py_max_Max: "fitnesses \<noteq> [] \<Longrightarrow> py_max fitnesses = Inr (Max (set fitnesses))"
proof (cases fitnesses)
  case Nil
  then show "fitnesses \<noteq> [] \<Longrightarrow> ?thesis" by simp
next
  case (Cons x xs)
  have "fold max xs x = Max (set (x # xs))" by (rule Max.set_eq_fold [symmetric])
  with Cons show ?thesis by simp
qed

lemma py_index_first:
  "v \<in> set xs \<Longrightarrow>
   \<exists>i < length xs. py_index xs v = Inr i \<and> xs ! i = v \<and> (\<forall>j < i. xs ! j \<noteq> v)"
proof (induction xs)
  case Nil
  then show ?case by simp
next
  case (Cons x xs)
  show ?case
  proof (cases "x = v")
    case True
    then show ?thesis by simp
  next
    case False
    with Cons obtain i where i: "i < length xs" "py_index xs v = Inr i" "xs ! i = v"
      "\<forall>j < i. xs ! j \<noteq> v" by auto
    have "\<forall>j < Suc i. (x # xs) ! j \<noteq> v"
      using False i(4) by (auto simp: nth_Cons split: nat.splits)
    with False i show ?thesis by (intro exI [of _ "Suc i"]) simp
  qed
qed

lemma track_best_result:
  assumes "fitnesses \<noteq> []" and "length fitnesses = length population"
  shows "\<exists>i < length fitnesses.
           fitnesses ! i = Max (set fitnesses) \<and> (\<forall>j < i. fitnesses ! j \<noteq> Max (set fitnesses))
           \<and> track_best t fitnesses population
               = Inr (if best_overall_fitness t < Some (Max (set fitnesses))
                      then \<lparr>best_overall_fitness = Some (Max (set fitnesses)),
                            best_overall_architecture = Some (population ! i)\<rparr>
                      else t)"
proof -
  have "Max (set fitnesses) \<in> set fitnesses" using assms(1) by simp
  from py_index_first [OF this] obtain i where i: "i < length fitnesses"
    "py_index fitnesses (Max (set fitnesses)) = Inr i" "fitnesses ! i = Max (set fitnesses)"
    "\<forall>j < i. fitnesses ! j \<noteq> Max (set fitnesses)" by blast
  then have "track_best t fitnesses population
               = Inr (if best_overall_fitness t < Some (Max (set fitnesses))
                      then \<lparr>best_overall_fitness = Some (Max (set fitnesses)),
                            best_overall_architecture = Some (population ! i)\<rparr>
                      else t)"
    using assms by (simp add: track_best_def py_max_Max py_nth_def)
  with i show ?thesis by blast
qed

lemma track_best_fitness:
  assumes "fitnesses \<noteq> []" and "length fitnesses = length population"
  shows "\<exists>t'. track_best t fitnesses population = Inr t'
           \<and> best_overall_fitness t' = max (best_overall_fitness t) (Some (Max (set fitnesses)))"
proof -
  from track_best_result [OF assms, of t] obtain i where
    "track_best t fitnesses population
               = Inr (if best_overall_fitness t < Some (Max (set fitnesses))
                      then \<lparr>best_overall_fitness = Some (Max (set fitnesses)),
                            best_overall_architecture = Some (population ! i)\<rparr>
                      else t)" by blast
  then show ?thesis by (auto simp: max_def)
qed

lemma max_Some: "max (Some (a::real)) (Some b) = Some (max a b)"
  by (simp add: max_def)

lemma track_generations_fitness:
  assumes "\<forall>(fitnesses, population) \<in> set gens.
             fitnesses \<noteq> [] \<and> length fitnesses = length population"
  shows "\<exists>t'. track_generations t gens = Inr t'
           \<and> best_overall_fitness t'
               = (if gens = [] then best_overall_fitness t
                  else max (best_overall_fitness t) (Some (Max (observed gens))))"
  using assms
proof (induction gens arbitrary: t)
  case Nil
  show ?case by simp
next
  case (Cons gen gens)
  obtain fitnesses population where gen: "gen = (fitnesses, population)" by (cases gen)
  have ok: "fitnesses \<noteq> []" "length fitnesses = length population"
    using Cons.prems gen by simp_all
  from track_best_fitness [OF ok, of t] obtain t1 where
    t1: "track_best t fitnesses population = Inr t1"
    "best_overall_fitness t1 = max (best_overall_fitness t) (Some (Max (set fitnesses)))"
    by blast
  have "\<forall>(fitnesses, population) \<in> set gens.
             fitnesses \<noteq> [] \<and> length fitnesses = length population"
    using Cons.prems by simp
  from Cons.IH [OF this, of t1] obtain t' where
    t': "track_generations t1 gens = Inr t'"
    "best_overall_fitness t'
               = (if gens = [] then best_overall_fitness t1
                  else max (best_overall_fitness t1) (Some (Max (observed gens))))"
    by blast
  have run: "track_generations t (gen # gens) = Inr t'"
    using t1 t' gen by simp
  show ?case
  proof (cases "gens = []")
    case True
    have o: "observed (gen # gens) = set fitnesses"
      using True gen by (simp add: observed_def)
    have "t' = t1" using t'(1) True by simp
    then have "best_overall_fitness t'
                 = max (best_overall_fitness t) (Some (Max (set fitnesses)))"
      using t1(2) by (simp only:)
    then show ?thesis using run by (simp only: o) simp
  next
    case False
    have fin: "finite (observed gens)" by (auto simp: observed_def)
    have ne: "observed gens \<noteq> {}"
      using False Cons.prems by (cases gens) (auto simp: observed_def)
    have "observed (gen # gens) = set fitnesses \<union> observed gens"
      by (simp add: observed_def gen)
    then have m: "Max (observed (gen # gens)) = max (Max (set fitnesses)) (Max (observed gens))"
      using Max_Un [of "set fitnesses" "observed gens"] fin ne ok by simp
    have "best_overall_fitness t'
            = max (max (best_overall_fitness t) (Some (Max (set fitnesses))))
                (Some (Max (observed gens)))"
      using t'(2) t1(2) False by simp
    also have "\<dots> = max (best_overall_fitness t)
                  (max (Some (Max (set fitnesses))) (Some (Max (observed gens))))"
      by (rule max.assoc)
    also have "\<dots> = max (best_overall_fitness t) (Some (Max (observed (gen # gens))))"
      by (simp only: max_Some m)
    finally have "best_overall_fitness t'
        = max (best_overall_fitness t) (Some (Max (observed (gen # gens))))" .
    then show ?thesis using run by simp
  qed
qed

lemma track_generations_append:
  "track_generations t (gens @ later)
     = (case track_generations t gens of Inl e \<Rightarrow> Inl e | Inr t' \<Rightarrow> track_generations t' later)"
  by (induction gens arbitrary: t) (auto split: sum.splits)


lemma track_generations_tracks:
  assumes "\<forall>(fitnesses, population) \<in> set gens.
             fitnesses \<noteq> [] \<and> length fitnesses = length population"
    and "track_generations t gens = Inr t'"
    and "tracks t past \<or> (gens \<noteq> [] \<and> best_overall_fitness t = None)"
  shows "tracks t' (past @ gens)"
  using assms
proof (induction gens arbitrary: t past)
  case Nil
  then show ?case by simp
next
  case (Cons gen gens)
  obtain fitnesses population where gen: "gen = (fitnesses, population)" by (cases gen)
  have ok: "fitnesses \<noteq> []" "length fitnesses = length population"
    using Cons.prems(1) gen by simp_all
  from track_best_result [OF ok, of t] obtain i where i: "i < length fitnesses"
    "fitnesses ! i = Max (set fitnesses)"
    and t1: "track_best t fitnesses population
               = Inr (if best_overall_fitness t < Some (Max (set fitnesses))
                      then \<lparr>best_overall_fitness = Some (Max (set fitnesses)),
                            best_overall_architecture = Some (population ! i)\<rparr>
                      else t)" by blast
  define t1 where "t1 = (if best_overall_fitness t < Some (Max (set fitnesses))
                      then \<lparr>best_overall_fitness = Some (Max (set fitnesses)),
                            best_overall_architecture = Some (population ! i)\<rparr>
                      else t)"
  have run: "track_generations t1 gens = Inr t'"
    using Cons.prems(2) t1 gen by (simp add: t1_def)
  have inv: "tracks t1 (past @ [gen])"
  proof (cases "best_overall_fitness t < Some (Max (set fitnesses))")
    case True
    then show ?thesis using i gen by (auto simp: t1_def tracks_def)
  next
    case False
    then have "best_overall_fitness t \<noteq> None" by (cases "best_overall_fitness t") auto
    with Cons.prems(3) have "tracks t past" by simp
    with False show ?thesis by (auto simp: t1_def tracks_def)
  qed
  have rest: "\<forall>(fitnesses, population) \<in> set gens.
             fitnesses \<noteq> [] \<and> length fitnesses = length population"
    using Cons.prems(1) by simp
  from Cons.IH [OF rest run, of "past @ [gen]"] inv show ?case by simp
qed

text \<open>
  Claim C5. Over the generation loop, started from minus infinity, with every
  generation holding at least one genome and as many fitness values as genomes: the
  tracker after the generations \<open>gens\<close> holds the greatest fitness observed in them,
  together with a genome that was given this fitness; after further generations the
  tracked fitness is no smaller; and one more generation replaces fitness and genome
  together, by the generation's greatest fitness and the first genome that has it,
  exactly when that fitness is strictly greater than the tracked one, and otherwise
  leaves the tracker as it is.
\<close>

theorem best_overall_fitness_monotone:
  fixes gens later :: "(real list \<times> 'g list) list"
  assumes "\<forall>(fitnesses, population) \<in> set (gens @ later).
             fitnesses \<noteq> [] \<and> length fitnesses = length population"
  shows "\<exists>t1 t2.
           track_generations (initial_tracker :: 'g tracker) gens = Inr t1
           \<and> track_generations initial_tracker (gens @ later) = Inr t2
           \<and> best_overall_fitness t1 \<le> best_overall_fitness t2
           \<and> best_overall_fitness t1
               = (if gens = [] then None else Some (Max (observed gens)))
           \<and> (gens \<noteq> [] \<longrightarrow> tracks t1 gens)
           \<and> (\<forall>fitnesses population. fitnesses \<noteq> [] \<and> length fitnesses = length population
                \<longrightarrow> (\<exists>i < length fitnesses.
                      fitnesses ! i = Max (set fitnesses)
                      \<and> (\<forall>j < i. fitnesses ! j \<noteq> Max (set fitnesses))
                      \<and> track_best t1 fitnesses population
                          = Inr (if best_overall_fitness t1 < Some (Max (set fitnesses))
                                 then \<lparr>best_overall_fitness = Some (Max (set fitnesses)),
                                       best_overall_architecture = Some (population ! i)\<rparr>
                                 else t1)))"
proof -
  have ok1: "\<forall>(fitnesses, population) \<in> set gens.
             fitnesses \<noteq> [] \<and> length fitnesses = length population"
    and ok2: "\<forall>(fitnesses, population) \<in> set later.
             fitnesses \<noteq> [] \<and> length fitnesses = length population"
    using assms by auto
  from track_generations_fitness [OF ok1, of initial_tracker] obtain t1 where
    t1: "track_generations (initial_tracker :: 'g tracker) gens = Inr t1"
    "best_overall_fitness t1
       = (if gens = [] then best_overall_fitness (initial_tracker :: 'g tracker)
          else max (best_overall_fitness (initial_tracker :: 'g tracker))
                 (Some (Max (observed gens))))"
    by blast
  from track_generations_fitness [OF ok2, of t1] obtain t2 where
    t2: "track_generations t1 later = Inr t2"
    "best_overall_fitness t2
       = (if later = [] then best_overall_fitness t1
          else max (best_overall_fitness t1) (Some (Max (observed later))))"
    by blast
  have a: "track_generations initial_tracker (gens @ later) = Inr t2"
    using t1 t2 by (simp add: track_generations_append)
  have b: "best_overall_fitness t1 \<le> best_overall_fitness t2"
    using t2(2) by simp
  have c: "best_overall_fitness t1 = (if gens = [] then None else Some (Max (observed gens)))"
    using t1(2) by (simp add: initial_tracker_def max_def)
  have d: "gens \<noteq> [] \<longrightarrow> tracks t1 gens"
    using track_generations_tracks [OF ok1 t1(1), of "[]"]
    by (simp add: initial_tracker_def)
  have e: "\<forall>fitnesses population. fitnesses \<noteq> [] \<and> length fitnesses = length population
                \<longrightarrow> (\<exists>i < length fitnesses.
                      fitnesses ! i = Max (set fitnesses)
                      \<and> (\<forall>j < i. fitnesses ! j \<noteq> Max (set fitnesses))
                      \<and> track_best t1 fitnesses population
                          = Inr (if best_overall_fitness t1 < Some (Max (set fitnesses))
                                 then \<lparr>best_overall_fitness = Some (Max (set fitnesses)),
                                       best_overall_architecture = Some (population ! i)\<rparr>
                                 else t1))"
    using track_best_result [of _ _ t1] by simp
  show ?thesis
    by (intro exI [of _ t1] exI [of _ t2] conjI t1(1) a b c d e)
qed

theorem best_overall_fitness_monotone_witness:
  "track_generations initial_tracker ([([1 / 2, 7 / 10], [[0::nat], [1]])] @ [([6 / 10], [[2]])])
       = Inr \<lparr>best_overall_fitness = Some (7 / 10), best_overall_architecture = Some [1]\<rparr>
   \<and> (\<exists>t1 t2.
         track_generations initial_tracker [([1 / 2, 7 / 10], [[0::nat], [1]])] = Inr t1
         \<and> track_generations initial_tracker
               ([([1 / 2, 7 / 10], [[0::nat], [1]])] @ [([6 / 10], [[2]])]) = Inr t2
         \<and> best_overall_fitness t1 \<le> best_overall_fitness t2)"
proof -
  have h: "\<forall>(fitnesses, population)
       \<in> set ([([1 / 2, 7 / 10], [[0::nat], [1]])] @ [([6 / 10], [[2]])]).
       fitnesses \<noteq> [] \<and> length fitnesses = length population"
    by simp
  have ev: "track_generations initial_tracker
       ([([1 / 2, 7 / 10], [[0::nat], [1]])] @ [([6 / 10], [[2]])])
       = Inr \<lparr>best_overall_fitness = Some (7 / 10), best_overall_architecture = Some [1]\<rparr>"
    by (simp add: track_best_def py_nth_def initial_tracker_def)
  from best_overall_fitness_monotone [OF h]
  have "\<exists>t1 t2.
         track_generations initial_tracker [([1 / 2, 7 / 10], [[0::nat], [1]])] = Inr t1
         \<and> track_generations initial_tracker
               ([([1 / 2, 7 / 10], [[0::nat], [1]])] @ [([6 / 10], [[2]])]) = Inr t2
         \<and> best_overall_fitness t1 \<le> best_overall_fitness t2"
    by blast
  with ev show ?thesis by blast
qed

section \<open>Properties of the fitness evaluation\<close>

lemma train_batches_full_pass:
  "fst (train_batches train_step bs model epoch_loss) = full_pass train_step bs model"
  by (induction bs arbitrary: model epoch_loss)
     (simp_all add: full_pass_def split: prod.splits)

lemma train_epochs_passes:
  assumes "train_loader \<noteq> [] \<or> epochs = 0"
  shows "\<exists>loss. train_epochs train_step train_loader epochs model total_loss
           = Inr ((full_pass train_step train_loader ^^ epochs) model, loss)"
  using assms
proof (induction epochs arbitrary: model total_loss)
  case 0
  show ?case by simp
next
  case (Suc n)
  then have ne: "train_loader \<noteq> []" by simp
  obtain model' epoch_loss where
    b: "train_batches train_step train_loader model 0 = (model', epoch_loss)"
    by (cases "train_batches train_step train_loader model 0")
  have m: "model' = full_pass train_step train_loader model"
    using train_batches_full_pass [of train_step train_loader model 0] b by simp
  from Suc.IH [of model' "total_loss + epoch_loss"] ne obtain loss where
    r: "train_epochs train_step train_loader n model' (total_loss + epoch_loss)
       = Inr ((full_pass train_step train_loader ^^ n) model', loss)" by blast
  have p: "(full_pass train_step train_loader ^^ Suc n) model
             = (full_pass train_step train_loader ^^ n) model'"
    by (simp only: funpow_Suc_right m o_apply)
  have "train_epochs train_step train_loader (Suc n) model total_loss
          = train_epochs train_step train_loader n model' (total_loss + epoch_loss)"
    using b ne by simp
  with r p show ?case by (simp only:) blast
qed

lemma evaluate_batches_counts:
  "evaluate_batches forward model bs correct tot
     = (correct + correct_in forward model (concat bs), tot + length (concat bs))"
  by (induction bs arbitrary: correct tot) (simp_all add: correct_in_def)

lemma correct_in_le: "correct_in forward model batch \<le> length batch"
  by (simp add: correct_in_def)

lemma hidden_layers_well_keyed:
  "\<forall>d \<in> set genome. well_keyed d \<Longrightarrow> \<exists>r. hidden_layers genome w layers = Inr r"
proof (induction genome arbitrary: w layers)
  case Nil
  show ?case by simp
next
  case (Cons d genome)
  then have k: "set (keys d) = attribute_keys" by (simp add: well_keyed_def)
  have in_keys: "''num_neurons'' \<in> set (keys d)" "''activation'' \<in> set (keys d)"
    "''dropout_rate'' \<in> set (keys d)"
    by (simp_all add: k attribute_keys_def)
  obtain n where n: "getitem d ''num_neurons'' = Inr n"
    using getitem_in_keys [OF in_keys(1)] by (rule exE)
  obtain a where a: "getitem d ''activation'' = Inr a"
    using getitem_in_keys [OF in_keys(2)] by (rule exE)
  obtain p where p: "getitem d ''dropout_rate'' = Inr p"
    using getitem_in_keys [OF in_keys(3)] by (rule exE)
  from n a p have "hidden_layers (d # genome) w layers
               = hidden_layers genome n
                   (layers @ [Linear w n] @ activation_layers a
                      @ (if truthy p then [Dropout p] else []))"
    by simp
  with Cons show ?case by simp
qed

lemma Net_init_well_keyed:
  "\<forall>d \<in> set genome. well_keyed d \<Longrightarrow> \<exists>layers. Net_init genome D K = Inr layers"
  using hidden_layers_well_keyed [of genome "PyInt D" "[]"]
  by (auto simp: Net_init_def)

text \<open>
  Claim C7, as amended. For every genome whose genes have the three attribute keys,
  every non-empty list of training batches (or no epoch at all) and every validation
  loader that holds at least one sample, \<^verbatim>\<open>compute_fitness\<close> builds the model of the
  genome, trains it by exactly \<open>epochs\<close> full passes over the training batches, and
  returns the number of validation samples whose predicted class is the class of the
  target, divided by the number of validation samples: a value between 0 and 1.
\<close>

theorem compute_fitness_accuracy:
  assumes genes: "\<forall>d \<in> set genome. well_keyed d"
    and train: "train_loader \<noteq> [] \<or> epochs = 0"
    and val: "concat test_loader \<noteq> []"
  shows "\<exists>layers model accuracy.
           Net_init genome D K = Inr layers
           \<and> model = (full_pass train_step train_loader ^^ epochs) (init_model layers)
           \<and> compute_fitness init_model train_step forward genome train_loader test_loader
                epochs D K = Inr accuracy
           \<and> accuracy = real (correct_in forward model (concat test_loader))
                          / real (length (concat test_loader))
           \<and> correct_in forward model (concat test_loader) \<le> length (concat test_loader)
           \<and> 0 \<le> accuracy \<and> accuracy \<le> 1"
proof -
  from Net_init_well_keyed [OF genes] obtain layers where
    l: "Net_init genome D K = Inr layers" by blast
  define model where "model = (full_pass train_step train_loader ^^ epochs) (init_model layers)"
  from train_epochs_passes [OF train, of train_step "init_model layers" 0] obtain loss where
    t: "train_epochs train_step train_loader epochs (init_model layers) 0 = Inr (model, loss)"
    by (auto simp: model_def)
  define c where "c = correct_in forward model (concat test_loader)"
  define n where "n = length (concat test_loader)"
  have n: "0 < n" using val by (simp add: n_def)
  have cn: "c \<le> n" by (simp add: c_def n_def correct_in_le)
  have run: "compute_fitness init_model train_step forward genome train_loader test_loader
                epochs D K = Inr (real c / real n)"
    using l t n by (simp add: compute_fitness_def evaluate_batches_counts c_def n_def)
  have "0 \<le> real c / real n" by simp
  moreover have "real c / real n \<le> 1" using n cn by simp
  ultimately show ?thesis
    using l run cn by (simp add: model_def c_def n_def)
qed

text \<open>
  Claim C7 as it is written fails when the training loader has no batch: the average
  loss of the first epoch divides by the number of batches, and the call raises
  \<^verbatim>\<open>ZeroDivisionError\<close> although the validation loader is not empty.
\<close>

theorem compute_fitness_accuracy_counterexample:
  "compute_fitness (\<lambda>layers. ()) (\<lambda>model (b::unit). (model, 0)) (\<lambda>model x. x)
     [] [] [[([0, 1], [0, 1])]] 1 3 2 = Inl ZeroDivisionError"
  by (simp add: compute_fitness_def Net_init_def)

theorem compute_fitness_accuracy_witness:
  "well_keyed [(''num_neurons'', PyInt 4), (''activation'', PyStr ''relu''),
                 (''dropout_rate'', PyNone)]
   \<and> [()] \<noteq> []
   \<and> concat [[([0, 1], [0, 1]), ([1, 0], [0, 1 :: real])]] \<noteq> []
   \<and> compute_fitness (\<lambda>layers. ()) (\<lambda>model (b::unit). (model, 0)) (\<lambda>model x. x)
       [[(''num_neurons'', PyInt 4), (''activation'', PyStr ''relu''),
         (''dropout_rate'', PyNone)]]
       [()] [[([0, 1], [0, 1]), ([1, 0], [0, 1])]] 2 3 2 = Inr (1 / 2)"
proof -
  have g: "\<forall>d \<in> set [[(''num_neurons'', PyInt 4), (''activation'', PyStr ''relu''),
                 (''dropout_rate'', PyNone)]]. well_keyed d"
    by (auto simp: well_keyed_def keys_def attribute_keys_def)
  have t: "[()] \<noteq> [] \<or> (2::nat) = 0" by simp
  have v: "concat [[([0, 1], [0, 1]), ([1, 0], [0, 1 :: real])]] \<noteq> []" by simp
  from compute_fitness_accuracy [OF g t v, of 3 2 "\<lambda>model b. (model, 0)" "\<lambda>layers. ()"
      "\<lambda>model x. x"]
  have "compute_fitness (\<lambda>layers. ()) (\<lambda>model (b::unit). (model, 0)) (\<lambda>model x. x)
       [[(''num_neurons'', PyInt 4), (''activation'', PyStr ''relu''),
         (''dropout_rate'', PyNone)]]
       [()] [[([0, 1], [0, 1]), ([1, 0], [0, 1])]] 2 3 2 = Inr (1 / 2)"
    by (auto simp: correct_in_def)
  with g v show ?thesis by simp
qed

section \<open>Properties of crossover\<close>

lemma crossover_keys_result:
  assumes "set ks \<subseteq> set (keys gene1)" and "set ks \<subseteq> set (keys gene2)"
  shows "\<exists>child g'. crossover_keys ks gene1 gene2 acc g = Inr (child, g')
           \<and> set (keys child) = set (keys acc) \<union> set ks
           \<and> (\<forall>k. getitem child k
                  = (if k \<in> set ks
                     then (if getitem child k = getitem gene1 k then getitem gene1 k
                           else getitem gene2 k)
                     else getitem acc k))"
  using assms
proof (induction ks arbitrary: acc g)
  case Nil
  show ?case by simp
next
  case (Cons key ks)
  obtain c where c: "random_choice [True, False] g = Inr (c, stl g)"
    using random_choice_in [of "[True, False]" g] by auto
  define src where "src = (if c then gene1 else gene2)"
  have "key \<in> set (keys src)" using Cons.prems by (simp add: src_def)
  from getitem_in_keys [OF this] obtain v where v: "getitem src key = Inr v" by (rule exE)
  have sub: "set ks \<subseteq> set (keys gene1)" "set ks \<subseteq> set (keys gene2)"
    using Cons.prems by simp_all
  from Cons.IH [OF sub, of "setitem acc key v" "stl g"] obtain child g' where
    run: "crossover_keys ks gene1 gene2 (setitem acc key v) (stl g) = Inr (child, g')"
    and ks: "set (keys child) = set (keys (setitem acc key v)) \<union> set ks"
    and val: "\<forall>k. getitem child k
                  = (if k \<in> set ks
                     then (if getitem child k = getitem gene1 k then getitem gene1 k
                           else getitem gene2 k)
                     else getitem (setitem acc key v) k)"
    by blast
  have step: "crossover_keys (key # ks) gene1 gene2 acc g = Inr (child, g')"
    using c v run by (simp add: src_def)
  have k': "set (keys child) = set (keys acc) \<union> set (key # ks)"
    using ks by (auto simp: keys_setitem split: if_splits)
  have val': "getitem child k
                  = (if k \<in> set (key # ks)
                     then (if getitem child k = getitem gene1 k then getitem gene1 k
                           else getitem gene2 k)
                     else getitem acc k)" for k
  proof (cases "k \<in> set ks")
    case True
    with val [rule_format, of k] show ?thesis by simp
  next
    case False
    then have g: "getitem child k = getitem (setitem acc key v) k"
      using val [rule_format, of k] by simp
    show ?thesis
    proof (cases "k = key")
      case True
      with g v show ?thesis by (cases c) (auto simp: getitem_setitem src_def)
    next
      case ne: False
      with g False show ?thesis by (simp add: getitem_setitem)
    qed
  qed
  from step k' val' show ?case by blast
qed


lemma upt_shift: "n # [Suc n..<Suc (n + m)] = [n..<Suc (n + m)]"
  by (simp add: upt_conv_Cons)

lemma crossover_keys_gene:
  assumes "well_keyed gene1" and "well_keyed gene2"
  shows "\<exists>child g'. crossover_keys (keys gene1) gene1 gene2 [] g = Inr (child, g')
           \<and> well_keyed child
           \<and> (\<forall>k. getitem child k = getitem gene1 k \<or> getitem child k = getitem gene2 k)"
proof -
  have sub: "set (keys gene1) \<subseteq> set (keys gene1)" "set (keys gene1) \<subseteq> set (keys gene2)"
    using assms by (simp_all add: well_keyed_def)
  from crossover_keys_result [OF sub, of "[]" g] obtain child g' where
    run: "crossover_keys (keys gene1) gene1 gene2 [] g = Inr (child, g')"
    and ks: "set (keys child) = set (keys []) \<union> set (keys gene1)"
    and val: "\<forall>k. getitem child k
                  = (if k \<in> set (keys gene1)
                     then (if getitem child k = getitem gene1 k then getitem gene1 k
                           else getitem gene2 k)
                     else getitem [] k)"
    by blast
  have wk: "well_keyed child" using ks assms(1) by (simp add: well_keyed_def keys_def)
  have "getitem child k = getitem gene1 k \<or> getitem child k = getitem gene2 k" for k
  proof (cases "k \<in> set (keys gene1)")
    case True
    with val [rule_format, of k] show ?thesis by metis
  next
    case False
    then have "map_of gene1 k = None" by (simp add: keys_def map_of_eq_None_iff)
    then have "getitem gene1 k = getitem [] k" by (simp add: getitem_def)
    with val [rule_format, of k] False show ?thesis by simp
  qed
  with run wk show ?thesis by blast
qed

lemma crossover_genes_result:
  assumes "\<forall>(a1, a2) \<in> set ps.
             a1 < length h \<and> a2 < length h \<and> well_keyed (h ! a1) \<and> well_keyed (h ! a2)"
  shows "\<exists>new g'.
           crossover_genes ps child h g
             = Inr (child @ [length h..<length h + length ps], h @ new, g')
           \<and> length new = length ps
           \<and> (\<forall>i < length ps. well_keyed (new ! i)
                \<and> (\<forall>k. getitem (new ! i) k = getitem (h ! fst (ps ! i)) k
                       \<or> getitem (new ! i) k = getitem (h ! snd (ps ! i)) k))"
  using assms
proof (induction ps arbitrary: child h g)
  case Nil
  show ?case by simp
next
  case (Cons p ps)
  obtain a1 a2 where p: "p = (a1, a2)" by (cases p)
  have a: "a1 < length h" "a2 < length h" "well_keyed (h ! a1)" "well_keyed (h ! a2)"
    using Cons.prems p by simp_all
  from crossover_keys_gene [OF a(3,4), of g] obtain cg g1 where
    cg: "crossover_keys (keys (h ! a1)) (h ! a1) (h ! a2) [] g = Inr (cg, g1)"
    "well_keyed cg"
    "\<forall>k. getitem cg k = getitem (h ! a1) k \<or> getitem cg k = getitem (h ! a2) k"
    by blast
  have old: "(h @ [cg]) ! b = h ! b" if "b < length h" for b
    using that by (simp add: nth_append)
  have rest: "\<forall>(b1, b2) \<in> set ps.
             b1 < length (h @ [cg]) \<and> b2 < length (h @ [cg])
             \<and> well_keyed ((h @ [cg]) ! b1) \<and> well_keyed ((h @ [cg]) ! b2)"
    using Cons.prems by (auto simp: old)
  from Cons.IH [OF rest, of "child @ [length h]" g1] obtain new g' where
    run: "crossover_genes ps (child @ [length h]) (h @ [cg]) g1
            = Inr ((child @ [length h])
                     @ [length (h @ [cg])..<length (h @ [cg]) + length ps],
                   (h @ [cg]) @ new, g')"
    and len: "length new = length ps"
    and val: "\<forall>i < length ps. well_keyed (new ! i)
                \<and> (\<forall>k. getitem (new ! i) k = getitem ((h @ [cg]) ! fst (ps ! i)) k
                       \<or> getitem (new ! i) k = getitem ((h @ [cg]) ! snd (ps ! i)) k)"
    by blast
  have addr: "(child @ [length h]) @ [length (h @ [cg])..<length (h @ [cg]) + length ps]
                = child @ [length h..<length h + length (p # ps)]"
    using upt_shift [of "length h" "length ps"] by simp
  have "crossover_genes (p # ps) child h g
          = crossover_genes ps (child @ [length h]) (h @ [cg]) g1"
    using cg(1) p by simp
  also have "\<dots> = Inr (child @ [length h..<length h + length (p # ps)],
                        (h @ [cg]) @ new, g')"
    using run by (simp only: addr)
  finally have step: "crossover_genes (p # ps) child h g
                = Inr (child @ [length h..<length h + length (p # ps)], h @ (cg # new), g')"
    by simp
  have val': "well_keyed ((cg # new) ! i)
                \<and> (\<forall>k. getitem ((cg # new) ! i) k = getitem (h ! fst ((p # ps) ! i)) k
                       \<or> getitem ((cg # new) ! i) k = getitem (h ! snd ((p # ps) ! i)) k)"
    if "i < length (p # ps)" for i
  proof (cases i)
    case 0
    with cg p show ?thesis by simp
  next
    case (Suc i')
    with that have i': "i' < length ps" by simp
    then have "ps ! i' \<in> set ps" by simp
    with Cons.prems have "fst (ps ! i') < length h" "snd (ps ! i') < length h"
      by (auto simp: case_prod_beta)
    with val [rule_format, OF i'] Suc show ?thesis by (simp add: old)
  qed
  from step len val' show ?case
    by (intro exI [of _ "cg # new"] exI [of _ g']) simp
qed

lemma crossover_genes_frame:
  "crossover_genes ps child h g = Inr (c, h', g') \<Longrightarrow>
   \<exists>new. h' = h @ new \<and> length new = length ps
     \<and> c = child @ [length h..<length h + length ps]"
proof (induction ps arbitrary: child h g)
  case Nil
  then show ?case by simp
next
  case (Cons p ps)
  obtain a1 a2 where p: "p = (a1, a2)" by (cases p)
  from Cons.prems p obtain cg g1 where
    cg: "crossover_keys (keys (h ! a1)) (h ! a1) (h ! a2) [] g = Inr (cg, g1)"
    and run: "crossover_genes ps (child @ [length h]) (h @ [cg]) g1 = Inr (c, h', g')"
    by (auto split: sum.splits)
  from Cons.IH [OF run] obtain new where
    new: "h' = (h @ [cg]) @ new" "length new = length ps"
    "c = (child @ [length h]) @ [length (h @ [cg])..<length (h @ [cg]) + length ps]"
    by blast
  have "c = child @ [length h..<length h + length (p # ps)]"
    using new(3) upt_shift [of "length h" "length ps"] by simp
  with new(1,2) show ?case
    by (intro exI [of _ "cg # new"]) simp
qed

lemma crossover_result:
  assumes "allocated h parent1" and "allocated h parent2"
    and "\<forall>a \<in> set parent1 \<union> set parent2. well_keyed (h ! a)"
  shows "\<exists>child h' g'.
           crossover parent1 parent2 h g = Inr (child, h', g')
           \<and> length child = min (length parent1) (length parent2)
           \<and> (length parent1 = length parent2 \<longrightarrow> length child = length parent1)
           \<and> (\<forall>i < length child. \<forall>k \<in> attribute_keys.
                 getitem (h' ! (child ! i)) k = getitem (h ! (parent1 ! i)) k
                 \<or> getitem (h' ! (child ! i)) k = getitem (h ! (parent2 ! i)) k)
           \<and> (\<forall>i < length child. well_keyed (h' ! (child ! i)))"
proof -
  define ps where "ps = zip parent1 parent2"
  have n: "length ps = min (length parent1) (length parent2)" by (simp add: ps_def)
  have pre: "\<forall>(a1, a2) \<in> set ps.
             a1 < length h \<and> a2 < length h \<and> well_keyed (h ! a1) \<and> well_keyed (h ! a2)"
    using assms by (auto simp: ps_def allocated_def dest: set_zip_leftD set_zip_rightD)
  from crossover_genes_result [OF pre, of "[]" g] obtain new g' where
    run: "crossover_genes ps [] h g = Inr ([] @ [length h..<length h + length ps], h @ new, g')"
    and len: "length new = length ps"
    and val: "\<forall>i < length ps. well_keyed (new ! i)
                \<and> (\<forall>k. getitem (new ! i) k = getitem (h ! fst (ps ! i)) k
                       \<or> getitem (new ! i) k = getitem (h ! snd (ps ! i)) k)"
    by blast
  define child where "child = [length h..<length h + length ps]"
  have c: "crossover parent1 parent2 h g = Inr (child, h @ new, g')"
    using run by (simp add: crossover_def ps_def child_def)
  have lc: "length child = min (length parent1) (length parent2)"
    by (simp add: child_def n)
  have at: "(h @ new) ! (child ! i) = new ! i" if "i < length child" for i
    using that by (simp add: child_def nth_append)
  have pair: "fst (ps ! i) = parent1 ! i" "snd (ps ! i) = parent2 ! i" if "i < length child" for i
    using that lc by (simp_all add: ps_def)
  have v1: "\<forall>i < length child. \<forall>k \<in> attribute_keys.
                 getitem ((h @ new) ! (child ! i)) k = getitem (h ! (parent1 ! i)) k
                 \<or> getitem ((h @ new) ! (child ! i)) k = getitem (h ! (parent2 ! i)) k"
    using val lc n by (simp add: at pair)
  have v2: "\<forall>i < length child. well_keyed ((h @ new) ! (child ! i))"
    using val lc n by (simp add: at)
  from c lc v1 v2 show ?thesis
    by (intro exI [of _ child] exI [of _ "h @ new"] exI [of _ g']) simp
qed


text \<open>
  Claim C2. For two parents whose genes are allocated and have the three attribute
  keys, \<^verbatim>\<open>crossover\<close> returns a child as long as the shorter parent, so as long as
  both when they have the same length; at every position and for every attribute key
  the child's value is the value of the first or of the second parent at that
  position; and the child's genes have the three keys again.
\<close>

theorem crossover_uniform:
  assumes "allocated h parent1" and "allocated h parent2"
    and "\<forall>a \<in> set parent1 \<union> set parent2. well_keyed (h ! a)"
  shows "\<exists>child h' g'.
           crossover parent1 parent2 h g = Inr (child, h', g')
           \<and> length child = min (length parent1) (length parent2)
           \<and> (length parent1 = length parent2 \<longrightarrow> length child = length parent1)
           \<and> (\<forall>i < length child. \<forall>k \<in> attribute_keys.
                 getitem (h' ! (child ! i)) k = getitem (h ! (parent1 ! i)) k
                 \<or> getitem (h' ! (child ! i)) k = getitem (h ! (parent2 ! i)) k)
           \<and> (\<forall>i < length child. well_keyed (h' ! (child ! i)))"
  using assms by (rule crossover_result)

theorem crossover_uniform_witness:
  "well_keyed [(''num_neurons'', PyInt 4), (''activation'', PyStr ''relu''),
               (''dropout_rate'', PyNone)]
   \<and> well_keyed [(''num_neurons'', PyInt 8), (''activation'', PyStr ''tanh''),
                 (''dropout_rate'', PyFloat (1 / 10))]
   \<and> crossover [0] [1]
     [[(''num_neurons'', PyInt 4), (''activation'', PyStr ''relu''), (''dropout_rate'', PyNone)],
      [(''num_neurons'', PyInt 8), (''activation'', PyStr ''tanh''),
       (''dropout_rate'', PyFloat (1 / 10))]] (cycle [0, 1, 1])
     = Inr ([2],
        [[(''num_neurons'', PyInt 4), (''activation'', PyStr ''relu''), (''dropout_rate'', PyNone)],
         [(''num_neurons'', PyInt 8), (''activation'', PyStr ''tanh''),
          (''dropout_rate'', PyFloat (1 / 10))],
         [(''num_neurons'', PyInt 4), (''activation'', PyStr ''tanh''),
          (''dropout_rate'', PyFloat (1 / 10))]], cycle [0, 1, 1])
   \<and> (\<exists>child h' g'. crossover [0] [1]
     [[(''num_neurons'', PyInt 4), (''activation'', PyStr ''relu''), (''dropout_rate'', PyNone)],
      [(''num_neurons'', PyInt 8), (''activation'', PyStr ''tanh''),
       (''dropout_rate'', PyFloat (1 / 10))]] (cycle [0, 1, 1]) = Inr (child, h', g')
       \<and> length child = min (length [0::nat]) (length [1::nat]))"
proof -
  define h where "h =
     [[(''num_neurons'', PyInt 4), (''activation'', PyStr ''relu''), (''dropout_rate'', PyNone)],
      [(''num_neurons'', PyInt 8), (''activation'', PyStr ''tanh''),
       (''dropout_rate'', PyFloat (1 / 10))]]"
  have a1: "allocated h [0]" and a2: "allocated h [1]"
    by (simp_all add: allocated_def h_def)
  have wk: "\<forall>a \<in> set [0] \<union> set [1]. well_keyed (h ! a)"
    by (auto simp: well_keyed_def keys_def attribute_keys_def h_def)
  have ev: "crossover [0] [1] h (cycle [0, 1, 1])
     = Inr ([2], h @ [[(''num_neurons'', PyInt 4), (''activation'', PyStr ''tanh''),
          (''dropout_rate'', PyFloat (1 / 10))]], cycle [0, 1, 1])"
    by (simp add: crossover_def keys_def random_choice_def getitem_def setitem_def h_def)
  from crossover_uniform [OF a1 a2 wk, of "cycle [0, 1, 1]"]
  have "\<exists>child h' g'. crossover [0] [1] h (cycle [0, 1, 1]) = Inr (child, h', g')
       \<and> length child = min (length [0::nat]) (length [1::nat])"
    by blast
  moreover have "well_keyed (h ! 0)" "well_keyed (h ! 1)" using wk by simp_all
  ultimately show ?thesis using ev unfolding h_def by simp
qed

section \<open>Properties of mutation\<close>

lemma random_random_range:
  "0 \<le> fst (random_random g) \<and> fst (random_random g) < 1"
proof -
  have "shd g mod 2 ^ 53 < (2 ^ 53 :: nat)" by simp
  then have "real (shd g mod 2 ^ 53) < 2 ^ 53"
    by (metis of_nat_less_iff of_nat_numeral of_nat_power)
  then show ?thesis by (simp add: random_random_def)
qed

lemma mutate_items_step:
  "mutate_items (key # ks) gene g =
     (case candidates key of
        None \<Rightarrow> mutate_items ks gene g
      | Some cs \<Rightarrow>
          (case random_choice cs g of
             Inl e \<Rightarrow> Inl e
           | Inr (v, g') \<Rightarrow> mutate_items ks (setitem gene key v) g'))"
  by (simp add: candidates_def)

lemma candidates_nonempty: "candidates k = Some cs \<Longrightarrow> cs \<noteq> []"
  by (auto simp: candidates_def neuron_choices_def activation_choices_def dropout_choices_def
      split: if_splits)

lemma mutate_items_result:
  assumes "set ks \<subseteq> set (keys gene)"
  shows "\<exists>gene' g'. mutate_items ks gene g = Inr (gene', g')
           \<and> keys gene' = keys gene
           \<and> (\<forall>k \<in> set (keys gene).
                \<exists>v. getitem gene' k = Inr v
                  \<and> (case (if k \<in> set ks then candidates k else None) of
                        Some cs \<Rightarrow> v \<in> set cs
                      | None \<Rightarrow> getitem gene k = Inr v))"
  using assms
proof (induction ks arbitrary: gene g)
  case Nil
  show ?case using getitem_in_keys [of _ gene] by simp
next
  case (Cons key ks)
  have sub: "set ks \<subseteq> set (keys gene)" and key: "key \<in> set (keys gene)"
    using Cons.prems by simp_all
  show ?case
  proof (cases "candidates key")
    case None
    from Cons.IH [OF sub, of g] obtain gene' g' where
      run: "mutate_items ks gene g = Inr (gene', g')" and ks: "keys gene' = keys gene"
      and val: "\<forall>k \<in> set (keys gene).
                \<exists>v. getitem gene' k = Inr v
                  \<and> (case (if k \<in> set ks then candidates k else None) of
                        Some cs \<Rightarrow> v \<in> set cs
                      | None \<Rightarrow> getitem gene k = Inr v)"
      by blast
    have "\<exists>v. getitem gene' k = Inr v
                  \<and> (case (if k \<in> set (key # ks) then candidates k else None) of
                        Some cs \<Rightarrow> v \<in> set cs
                      | None \<Rightarrow> getitem gene k = Inr v)"
      if "k \<in> set (keys gene)" for k
      using val [rule_format, OF that] None
      by (cases "k = key") (auto split: if_splits)
    with run ks None show ?thesis by (simp add: mutate_items_step del: mutate_items.simps)
  next
    case (Some cs)
    from random_choice_in [OF candidates_nonempty [OF Some], of g] obtain v where
      v: "v \<in> set cs" "random_choice cs g = Inr (v, stl g)" by blast
    define gene1 where "gene1 = setitem gene key v"
    have k1: "keys gene1 = keys gene" using key by (simp add: gene1_def keys_setitem)
    from Cons.IH [of gene1 "stl g"] sub k1 obtain gene' g' where
      run: "mutate_items ks gene1 (stl g) = Inr (gene', g')" and ks: "keys gene' = keys gene1"
      and val: "\<forall>k \<in> set (keys gene1).
                \<exists>v. getitem gene' k = Inr v
                  \<and> (case (if k \<in> set ks then candidates k else None) of
                        Some cs \<Rightarrow> v \<in> set cs
                      | None \<Rightarrow> getitem gene1 k = Inr v)"
      by auto
    have step: "mutate_items (key # ks) gene g = Inr (gene', g')"
      using Some v(2) run by (simp add: mutate_items_step gene1_def del: mutate_items.simps)
    have "\<exists>w. getitem gene' k = Inr w
                  \<and> (case (if k \<in> set (key # ks) then candidates k else None) of
                        Some cs \<Rightarrow> w \<in> set cs
                      | None \<Rightarrow> getitem gene k = Inr w)"
      if "k \<in> set (keys gene)" for k
    proof -
      from val that k1 obtain w where w: "getitem gene' k = Inr w"
        "case (if k \<in> set ks then candidates k else None) of
                        Some cs \<Rightarrow> w \<in> set cs
                      | None \<Rightarrow> getitem gene1 k = Inr w"
        by auto
      show ?thesis
      proof (cases "k = key")
        case True
        show ?thesis
        proof (cases "key \<in> set ks")
          case True
          with w \<open>k = key\<close> Some show ?thesis by auto
        next
          case False
          with w \<open>k = key\<close> have "w = v" by (simp add: gene1_def getitem_setitem)
          with w(1) v(1) \<open>k = key\<close> Some show ?thesis by auto
        qed
      next
        case False
        then have "getitem gene1 k = getitem gene k" by (simp add: gene1_def getitem_setitem)
        with w False show ?thesis by (auto split: option.splits if_splits)
      qed
    qed
    with step ks k1 show ?thesis by auto
  qed
qed

lemma mutate_items_resampled:
  "\<exists>gene' g'. mutate_items (keys gene) gene g = Inr (gene', g') \<and> resampled gene gene'"
proof -
  from mutate_items_result [of "keys gene" gene g] obtain gene' g' where
    "mutate_items (keys gene) gene g = Inr (gene', g')" "keys gene' = keys gene"
    "\<forall>k \<in> set (keys gene).
                \<exists>v. getitem gene' k = Inr v
                  \<and> (case (if k \<in> set (keys gene) then candidates k else None) of
                        Some cs \<Rightarrow> v \<in> set cs
                      | None \<Rightarrow> getitem gene k = Inr v)"
    by auto
  then show ?thesis by (auto simp: resampled_def)
qed

lemma resampled_trans:
  assumes "resampled d d'" and "resampled d' d''"
  shows "resampled d d''"
proof -
  have k: "keys d' = keys d" "keys d'' = keys d" using assms by (simp_all add: resampled_def)
  have "\<exists>v. getitem d'' x = Inr v
          \<and> (case candidates x of Some cs \<Rightarrow> v \<in> set cs | None \<Rightarrow> getitem d x = Inr v)"
    if x: "x \<in> set (keys d)" for x
  proof -
    from assms(1) x obtain v where v: "getitem d' x = Inr v"
      "case candidates x of Some cs \<Rightarrow> v \<in> set cs | None \<Rightarrow> getitem d x = Inr v"
      by (auto simp: resampled_def)
    from assms(2) x k obtain w where w: "getitem d'' x = Inr w"
      "case candidates x of Some cs \<Rightarrow> w \<in> set cs | None \<Rightarrow> getitem d' x = Inr w"
      by (auto simp: resampled_def)
    from v w show ?thesis by (cases "candidates x") auto
  qed
  with k show ?thesis by (simp add: resampled_def)
qed

lemma mutate_genes_result:
  "\<exists>h' g'. mutate_genes rate genome h g = Inr (h', g') \<and> length h' = length h
     \<and> (\<forall>a. h' ! a = h ! a \<or> (a \<in> set genome \<and> a < length h \<and> resampled (h ! a) (h' ! a)))"
proof (induction genome arbitrary: h g)
  case Nil
  show ?case by simp
next
  case (Cons a genome)
  obtain u g1 where u: "random_random g = (u, g1)" by (cases "random_random g")
  show ?case
  proof (cases "u < rate")
    case False
    from Cons.IH [of h g1] obtain h' g' where
      "mutate_genes rate genome h g1 = Inr (h', g')" "length h' = length h"
      "\<forall>b. h' ! b = h ! b \<or> (b \<in> set genome \<and> b < length h \<and> resampled (h ! b) (h' ! b))"
      by blast
    with u False show ?thesis by auto
  next
    case True
    from mutate_items_resampled [of "h ! a" g1] obtain gene' g2 where
      m: "mutate_items (keys (h ! a)) (h ! a) g1 = Inr (gene', g2)"
      and r: "resampled (h ! a) gene'" by blast
    define h1 where "h1 = h[a := gene']"
    from Cons.IH [of h1 g2] obtain h' g' where
      run: "mutate_genes rate genome h1 g2 = Inr (h', g')" and len: "length h' = length h1"
      and val: "\<forall>b. h' ! b = h1 ! b
                  \<or> (b \<in> set genome \<and> b < length h1 \<and> resampled (h1 ! b) (h' ! b))"
      by blast
    have step: "mutate_genes rate (a # genome) h g = Inr (h', g')"
      using u True m run by (simp add: h1_def)
    have "h' ! b = h ! b
            \<or> (b \<in> set (a # genome) \<and> b < length h \<and> resampled (h ! b) (h' ! b))" for b
    proof (cases "b = a \<and> a < length h")
      case True
      then have h1a: "h1 ! b = gene'" by (simp add: h1_def)
      from val [rule_format, of b] show ?thesis
      proof
        assume "h' ! b = h1 ! b"
        with h1a r True show ?thesis by simp
      next
        assume "b \<in> set genome \<and> b < length h1 \<and> resampled (h1 ! b) (h' ! b)"
        with h1a r True resampled_trans [of "h ! a" gene' "h' ! b"] show ?thesis by simp
      qed
    next
      case False
      then have "h1 ! b = h ! b"
        by (cases "a < length h") (auto simp: h1_def list_update_beyond)
      moreover have "length h1 = length h" by (simp add: h1_def)
      ultimately show ?thesis using val [rule_format, of b] by auto
    qed
    moreover have "length h' = length h" using len by (simp add: h1_def)
    ultimately show ?thesis using step by blast
  qed
qed

lemma mutate_genes_never:
  "\<exists>g'. mutate_genes 0 genome h g = Inr (h, g')"
proof (induction genome arbitrary: g)
  case Nil
  show ?case by simp
next
  case (Cons a genome)
  obtain u g1 where u: "random_random g = (u, g1)" by (cases "random_random g")
  with random_random_range [of g] have "\<not> u < 0" by simp
  with u Cons.IH [of g1] show ?case by simp
qed

lemma mutate_genes_always:
  assumes "allocated h genome" and "mutate_genes 1 genome h g = Inr (h', g')"
  shows "\<forall>a \<in> set genome. resampled (h ! a) (h' ! a)"
  using assms
proof (induction genome arbitrary: h g)
  case Nil
  show ?case by simp
next
  case (Cons a genome)
  obtain u g1 where u: "random_random g = (u, g1)" by (cases "random_random g")
  with random_random_range [of g] have lt: "u < 1" by simp
  have a: "a < length h" using Cons.prems(1) by (simp add: allocated_def)
  from mutate_items_resampled [of "h ! a" g1] obtain gene' g2 where
    m: "mutate_items (keys (h ! a)) (h ! a) g1 = Inr (gene', g2)"
    and r: "resampled (h ! a) gene'" by blast
  define h1 where "h1 = h[a := gene']"
  have run: "mutate_genes 1 genome h1 g2 = Inr (h', g')"
    using Cons.prems(2) u lt m by (simp add: h1_def)
  have al: "allocated h1 genome" using Cons.prems(1) by (simp add: allocated_def h1_def)
  have h1a: "h1 ! a = gene'" using a by (simp add: h1_def)
  from mutate_genes_result [of 1 genome h1 g2] run have
    frame: "\<forall>b. h' ! b = h1 ! b
              \<or> (b \<in> set genome \<and> b < length h1 \<and> resampled (h1 ! b) (h' ! b))"
    by simp
  have ra: "resampled (h ! a) (h' ! a)"
    using frame [rule_format, of a] h1a r resampled_trans [of "h ! a" gene' "h' ! a"]
    by auto
  have "resampled (h ! b) (h' ! b)" if "b \<in> set genome" for b
  proof (cases "b = a")
    case True
    with ra show ?thesis by simp
  next
    case False
    then have "h1 ! b = h ! b" by (simp add: h1_def)
    with Cons.IH [OF al run] that show ?thesis by auto
  qed
  with ra show ?case by simp
qed

lemma resampled_attributes:
  assumes "resampled d d'" and "well_keyed d"
  shows "well_keyed d'
         \<and> (\<exists>v \<in> set neuron_choices. getitem d' ''num_neurons'' = Inr v)
         \<and> (\<exists>v \<in> set activation_choices. getitem d' ''activation'' = Inr v)
         \<and> (\<exists>v \<in> set dropout_choices. getitem d' ''dropout_rate'' = Inr v)"
proof -
  have k: "set (keys d) = attribute_keys" "keys d' = keys d"
    using assms by (simp_all add: well_keyed_def resampled_def)
  have val: "\<exists>v. getitem d' x = Inr v
          \<and> (case candidates x of Some cs \<Rightarrow> v \<in> set cs | None \<Rightarrow> getitem d x = Inr v)"
    if "x \<in> attribute_keys" for x
    using assms(1) that k by (simp add: resampled_def)
  have "\<exists>v \<in> set neuron_choices. getitem d' ''num_neurons'' = Inr v"
    using val [of "''num_neurons''"] by (auto simp: attribute_keys_def candidates_def)
  moreover have "\<exists>v \<in> set activation_choices. getitem d' ''activation'' = Inr v"
    using val [of "''activation''"] by (auto simp: attribute_keys_def candidates_def)
  moreover have "\<exists>v \<in> set dropout_choices. getitem d' ''dropout_rate'' = Inr v"
    using val [of "''dropout_rate''"] by (auto simp: attribute_keys_def candidates_def)
  ultimately show ?thesis using k by (simp add: well_keyed_def)
qed

text \<open>
  Claim C3. For every genome whose genes are allocated, \<^verbatim>\<open>mutate\<close> returns the same
  list of genes, so the length is kept, and every gene is afterwards either as it was
  or resampled: its keys are the same and every attribute key holds a value of its
  candidate list, so a gene with the three attributes has a neuron count out of
  4, 8, 16, 32, an activation out of relu, sigmoid, tanh, softmax and a dropout rate
  out of None, 0.1, 0.2, 0.3. With the mutation rate 0 the loop leaves the store as it
  is, and with the mutation rate 1 it resamples every gene.
\<close>

theorem mutate_resamples:
  assumes "allocated h genome"
  shows "\<exists>h' g'.
           mutate genome h g = Inr (genome, h', g')
           \<and> length (genome_value h' genome) = length (genome_value h genome)
           \<and> (\<forall>i < length genome.
                 genome_value h' genome ! i = genome_value h genome ! i
                 \<or> resampled (genome_value h genome ! i) (genome_value h' genome ! i))
           \<and> (\<forall>i < length genome.
                 well_keyed (genome_value h genome ! i)
                 \<longrightarrow> genome_value h' genome ! i = genome_value h genome ! i
                   \<or> (\<exists>n \<in> set neuron_choices. \<exists>a \<in> set activation_choices.
                       \<exists>p \<in> set dropout_choices.
                         getitem (genome_value h' genome ! i) ''num_neurons'' = Inr n
                         \<and> getitem (genome_value h' genome ! i) ''activation'' = Inr a
                         \<and> getitem (genome_value h' genome ! i) ''dropout_rate'' = Inr p))
           \<and> (\<exists>g0. mutate_genes 0 genome h g = Inr (h, g0))
           \<and> (\<exists>h1 g1. mutate_genes 1 genome h g = Inr (h1, g1)
                 \<and> (\<forall>i < length genome.
                       resampled (genome_value h genome ! i) (genome_value h1 genome ! i)))"
proof -
  from mutate_genes_result [of "1 / 10" genome h g] obtain h' g' where
    run: "mutate_genes (1 / 10) genome h g = Inr (h', g')"
    and val: "\<forall>a. h' ! a = h ! a
                \<or> (a \<in> set genome \<and> a < length h \<and> resampled (h ! a) (h' ! a))"
    by blast
  have m: "mutate genome h g = Inr (genome, h', g')"
    using run by (simp add: mutate_def)
  have l: "length (genome_value h' genome) = length (genome_value h genome)"
    by (simp add: genome_value_def)
  have v1: "\<forall>i < length genome.
                 genome_value h' genome ! i = genome_value h genome ! i
                 \<or> resampled (genome_value h genome ! i) (genome_value h' genome ! i)"
    using val by (auto simp: genome_value_def)
  have v2: "\<forall>i < length genome.
                 well_keyed (genome_value h genome ! i)
                 \<longrightarrow> genome_value h' genome ! i = genome_value h genome ! i
                   \<or> (\<exists>n \<in> set neuron_choices. \<exists>a \<in> set activation_choices.
                       \<exists>p \<in> set dropout_choices.
                         getitem (genome_value h' genome ! i) ''num_neurons'' = Inr n
                         \<and> getitem (genome_value h' genome ! i) ''activation'' = Inr a
                         \<and> getitem (genome_value h' genome ! i) ''dropout_rate'' = Inr p)"
  proof (intro allI impI)
    fix i assume i: "i < length genome" and wk: "well_keyed (genome_value h genome ! i)"
    from v1 i have "genome_value h' genome ! i = genome_value h genome ! i
                 \<or> resampled (genome_value h genome ! i) (genome_value h' genome ! i)"
      by simp
    then show "genome_value h' genome ! i = genome_value h genome ! i
                   \<or> (\<exists>n \<in> set neuron_choices. \<exists>a \<in> set activation_choices.
                       \<exists>p \<in> set dropout_choices.
                         getitem (genome_value h' genome ! i) ''num_neurons'' = Inr n
                         \<and> getitem (genome_value h' genome ! i) ''activation'' = Inr a
                         \<and> getitem (genome_value h' genome ! i) ''dropout_rate'' = Inr p)"
    proof
      assume "genome_value h' genome ! i = genome_value h genome ! i"
      then show ?thesis by simp
    next
      assume "resampled (genome_value h genome ! i) (genome_value h' genome ! i)"
      from resampled_attributes [OF this wk] show ?thesis by blast
    qed
  qed
  from mutate_genes_never [of genome h g] obtain g0 where
    z: "mutate_genes 0 genome h g = Inr (h, g0)" by blast
  from mutate_genes_result [of 1 genome h g] obtain h1 g1 where
    o: "mutate_genes 1 genome h g = Inr (h1, g1)" by blast
  from mutate_genes_always [OF assms o]
  have o': "\<forall>i < length genome.
              resampled (genome_value h genome ! i) (genome_value h1 genome ! i)"
    by (simp add: genome_value_def)
  have z': "\<exists>g0. mutate_genes 0 genome h g = Inr (h, g0)"
    using z by (rule exI)
  have o'': "\<exists>h1 g1. mutate_genes 1 genome h g = Inr (h1, g1)
                 \<and> (\<forall>i < length genome.
                       resampled (genome_value h genome ! i) (genome_value h1 genome ! i))"
    using o o' by (intro exI [of _ h1] exI [of _ g1] conjI)
  show ?thesis
    by (intro exI [of _ h'] exI [of _ g'] conjI m l v1 v2 z' o'')
qed


theorem mutate_resamples_witness:
  "mutate [0]
     [[(''num_neurons'', PyInt 64), (''activation'', PyStr ''leaky_relu''),
       (''dropout_rate'', PyFloat (5 / 10))]] (cycle [0, 1, 2, 3])
     = Inr ([0],
         [[(''num_neurons'', PyInt 8), (''activation'', PyStr ''tanh''),
           (''dropout_rate'', PyFloat (3 / 10))]], cycle [0, 1, 2, 3])
   \<and> (\<exists>g0. mutate_genes 0 [0]
     [[(''num_neurons'', PyInt 64), (''activation'', PyStr ''leaky_relu''),
       (''dropout_rate'', PyFloat (5 / 10))]] (cycle [0, 1, 2, 3])
     = Inr ([[(''num_neurons'', PyInt 64), (''activation'', PyStr ''leaky_relu''),
       (''dropout_rate'', PyFloat (5 / 10))]], g0))"
proof -
  define h where "h = [[(''num_neurons'', PyInt 64), (''activation'', PyStr ''leaky_relu''),
       (''dropout_rate'', PyFloat (5 / 10))]]"
  have a: "allocated h [0]" by (simp add: allocated_def h_def)
  have ev: "mutate [0] h (cycle [0, 1, 2, 3])
     = Inr ([0],
         [[(''num_neurons'', PyInt 8), (''activation'', PyStr ''tanh''),
           (''dropout_rate'', PyFloat (3 / 10))]], cycle [0, 1, 2, 3])"
    by (simp add: mutate_def random_random_def random_choice_def keys_def setitem_def
        neuron_choices_def activation_choices_def dropout_choices_def h_def)
  from mutate_resamples [OF a, of "cycle [0, 1, 2, 3]"]
  have "\<exists>g0. mutate_genes 0 [0] h (cycle [0, 1, 2, 3]) = Inr (h, g0)"
    by blast
  with ev show ?thesis unfolding h_def by simp
qed

section \<open>Properties of breeding\<close>

lemma extends_refl: "extends h h"
  by (simp add: extends_def)

lemma extends_trans: "extends h1 h2 \<Longrightarrow> extends h2 h3 \<Longrightarrow> extends h1 h3"
proof -
  assume a: "extends h1 h2" and b: "extends h2 h3"
  then have l: "length h1 \<le> length h2" "length h2 \<le> length h3"
    by (simp_all add: extends_def)
  have "take (length h1) h3 = take (length h1) (take (length h2) h3)"
    using l by (simp add: min_def)
  also have "\<dots> = h1" using a b by (simp add: extends_def)
  finally show ?thesis using l by (simp add: extends_def)
qed

lemma extends_nth: "extends h h' \<Longrightarrow> a < length h \<Longrightarrow> h' ! a = h ! a"
  by (metis extends_def nth_take)

lemma extends_append: "extends h (h @ new)"
  by (simp add: extends_def)

lemma random_sample2_result:
  assumes "random_sample2 xs g = Inr ((x, y), g1)"
  shows "\<exists>i j. i < length xs \<and> j < length xs \<and> i \<noteq> j \<and> x = xs ! i \<and> y = xs ! j"
proof -
  define n where "n = length xs"
  define i where "i = shd g mod n"
  define j' where "j' = shd (stl g) mod (n - 1)"
  define j where "j = (if j' < i then j' else Suc j')"
  have n: "2 \<le> n" using assms by (auto simp: random_sample2_def n_def split: if_splits)
  have xy: "x = xs ! i" "y = xs ! j"
    using assms n by (auto simp: random_sample2_def n_def i_def j_def j'_def Let_def)
  have i: "i < n" using n by (simp add: i_def)
  have "j' < n - 1" using n by (simp add: j'_def)
  then have "j < n" "i \<noteq> j" by (auto simp: j_def)
  with i xy show ?thesis unfolding n_def by blast
qed

lemma random_sample2_returns:
  "2 \<le> length xs \<Longrightarrow> \<exists>x y g1. random_sample2 xs g = Inr ((x, y), g1)"
  by (simp add: random_sample2_def Let_def)

lemma crossover_frame:
  assumes "crossover parent1 parent2 h g = Inr (child, h2, g2)"
  shows "extends h h2 \<and> child = [length h..<length h2]"
proof -
  from crossover_genes_frame [of "zip parent1 parent2" "[]" h g child h2 g2] assms
  obtain new where "h2 = h @ new" "length new = length (zip parent1 parent2)"
    "child = [] @ [length h..<length h + length (zip parent1 parent2)]"
    by (auto simp: crossover_def)
  then show ?thesis by (simp add: extends_append)
qed

lemma mutate_frame:
  assumes "mutate c h2 g2 = Inr (c', h3, g3)"
  shows "c' = c \<and> length h3 = length h2 \<and> (\<forall>a. a \<notin> set c \<longrightarrow> h3 ! a = h2 ! a)"
proof -
  from mutate_genes_result [of "1 / 10" c h2 g2] obtain h' g' where
    "mutate_genes (1 / 10) c h2 g2 = Inr (h', g')" "length h' = length h2"
    "\<forall>a. h' ! a = h2 ! a \<or> (a \<in> set c \<and> a < length h2 \<and> resampled (h2 ! a) (h' ! a))"
    by blast
  with assms show ?thesis by (auto simp: mutate_def)
qed

lemma breed_child_frame:
  assumes "breed_child parents h g = Inr (child, h3, g3)"
  shows "extends h h3
         \<and> (\<exists>i j g1 h2 g2. i < length parents \<and> j < length parents \<and> i \<noteq> j
               \<and> crossover (parents ! i) (parents ! j) h g1 = Inr (child, h2, g2)
               \<and> mutate child h2 g2 = Inr (child, h3, g3))"
proof -
  from assms obtain parent1 parent2 g1 c h2 g2 where
    s: "random_sample2 parents g = Inr ((parent1, parent2), g1)"
    and c: "crossover parent1 parent2 h g1 = Inr (c, h2, g2)"
    and m: "mutate c h2 g2 = Inr (child, h3, g3)"
    by (auto simp: breed_child_def split: sum.splits)
  from random_sample2_result [OF s] obtain i j where
    ij: "i < length parents" "j < length parents" "i \<noteq> j"
    "parent1 = parents ! i" "parent2 = parents ! j" by blast
  from crossover_frame [OF c] have e: "extends h h2" and addr: "c = [length h..<length h2]"
    by simp_all
  from mutate_frame [OF m] have cc: "child = c" and l: "length h3 = length h2"
    and v: "\<forall>a. a \<notin> set c \<longrightarrow> h3 ! a = h2 ! a" by simp_all
  have le: "length h \<le> length h2" using e by (simp add: extends_def)
  have "take (length h) h3 = h"
  proof (rule nth_equalityI)
    show "length (take (length h) h3) = length h" using l le by simp
  next
    fix a assume "a < length (take (length h) h3)"
    then have a: "a < length h" by simp
    then have "a \<notin> set c" by (simp add: addr)
    with v have "h3 ! a = h2 ! a" by simp
    with a extends_nth [OF e a] show "take (length h) h3 ! a = h ! a" by simp
  qed
  then have "extends h h3" using l le by (simp add: extends_def)
  with ij c m cc show ?thesis by blast
qed

lemma breed_child_returns:
  assumes "2 \<le> length parents"
    and "\<forall>p \<in> set parents. allocated h p \<and> (\<forall>a \<in> set p. well_keyed (h ! a))"
  shows "\<exists>child h3 g3. breed_child parents h g = Inr (child, h3, g3)"
proof -
  from random_sample2_returns [OF assms(1), of g] obtain parent1 parent2 g1 where
    s: "random_sample2 parents g = Inr ((parent1, parent2), g1)" by blast
  from random_sample2_result [OF s] have p: "parent1 \<in> set parents" "parent2 \<in> set parents"
    by auto
  with assms(2) have "allocated h parent1" "allocated h parent2"
    "\<forall>a \<in> set parent1 \<union> set parent2. well_keyed (h ! a)" by auto
  from crossover_result [OF this, of g1] obtain c h2 g2 where
    c: "crossover parent1 parent2 h g1 = Inr (c, h2, g2)" by blast
  from mutate_genes_result [of "1 / 10" c h2 g2] obtain h3 g3 where
    "mutate_genes (1 / 10) c h2 g2 = Inr (h3, g3)" by blast
  then have "mutate c h2 g2 = Inr (c, h3, g3)" by (simp add: mutate_def)
  with s c show ?thesis by (simp add: breed_child_def)
qed


lemma breed_loop_frame:
  assumes "breed_loop parents population_size next_generation h g = Inr (res, h', g')"
  shows "extends h h' \<and> (\<exists>children. res = next_generation @ children)"
  using assms
proof (induction "population_size - length next_generation"
    arbitrary: next_generation h g)
  case 0
  then show ?case by (simp add: breed_loop.simps [of parents] extends_refl)
next
  case (Suc k)
  then have lt: "length next_generation < population_size" by simp
  with Suc.prems obtain child h3 g3 where
    c: "breed_child parents h g = Inr (child, h3, g3)"
    and r: "breed_loop parents population_size (next_generation @ [child]) h3 g3
              = Inr (res, h', g')"
    by (auto simp: breed_loop.simps [of parents population_size next_generation]
        split: sum.splits)
  have "k = population_size - length (next_generation @ [child])"
    using Suc.hyps(2) by simp
  from Suc.hyps(1) [OF this r] obtain children where
    e: "extends h3 h'" and res: "res = (next_generation @ [child]) @ children" by blast
  from breed_child_frame [OF c] have "extends h h3" by simp
  with e res show ?case
    by (auto intro: extends_trans)
qed

lemma bred_children_step:
  "bred_children parents (Suc k) h g =
     (case breed_child parents h g of
        Inl e \<Rightarrow> Inl e
      | Inr (child, h3, g3) \<Rightarrow>
          (case bred_children parents k h3 g3 of
             Inl e \<Rightarrow> Inl e
           | Inr (children, h', g') \<Rightarrow> Inr (child # children, h', g')))"
  by (simp add: breed_child_def split: sum.splits prod.splits)

lemma breed_loop_children:
  "breed_loop parents population_size next_generation h g =
     (case bred_children parents (population_size - length next_generation) h g of
        Inl e \<Rightarrow> Inl e
      | Inr (children, h', g') \<Rightarrow> Inr (next_generation @ children, h', g'))"
proof (induction "population_size - length next_generation"
    arbitrary: next_generation h g)
  case 0
  then show ?case by (simp add: breed_loop.simps [of parents])
next
  case (Suc k)
  then have lt: "length next_generation < population_size" by simp
  have k: "population_size - length next_generation = Suc k"
    using Suc.hyps(2) by simp
  show ?case
  proof (cases "breed_child parents h g")
    case (Inl e)
    with lt show ?thesis
      by (simp add: breed_loop.simps [of parents population_size next_generation] k
          bred_children_step del: bred_children.simps)
  next
    case (Inr r)
    obtain child h3 g3 where r: "r = (child, h3, g3)" by (cases r)
    have kk: "population_size - length (next_generation @ [child]) = k"
      using Suc.hyps(2) by simp
    from Suc.hyps(1) [OF kk [symmetric], of h3 g3]
    have ih: "breed_loop parents population_size (next_generation @ [child]) h3 g3 =
       (case bred_children parents k h3 g3 of
          Inl e \<Rightarrow> Inl e
        | Inr (children, h', g') \<Rightarrow> Inr ((next_generation @ [child]) @ children, h', g'))"
      by (simp only: kk)
    have "breed_loop parents population_size next_generation h g
            = breed_loop parents population_size (next_generation @ [child]) h3 g3"
      using lt Inr r
      by (simp add: breed_loop.simps [of parents population_size next_generation])
    with ih Inr r show ?thesis
      by (simp add: k bred_children_step del: bred_children.simps split: sum.splits)
  qed
qed

lemma bred_children_returns:
  assumes "2 \<le> length parents"
    and "\<forall>p \<in> set parents. allocated h0 p \<and> (\<forall>a \<in> set p. well_keyed (h0 ! a))"
    and "extends h0 h"
  shows "\<exists>children h' g'. bred_children parents k h g = Inr (children, h', g')
           \<and> length children = k \<and> extends h h'"
  using assms(3)
proof (induction k arbitrary: h g)
  case 0
  show ?case by (simp add: extends_refl)
next
  case (Suc k)
  have ok: "\<forall>p \<in> set parents. allocated h p \<and> (\<forall>a \<in> set p. well_keyed (h ! a))"
  proof (intro ballI conjI)
    fix p assume p: "p \<in> set parents"
    have le: "length h0 \<le> length h" using Suc.prems by (simp add: extends_def)
    from assms(2) p have al: "allocated h0 p" by simp
    then show "allocated h p" using le by (auto simp: allocated_def)
    fix a assume a: "a \<in> set p"
    with al have "a < length h0" by (simp add: allocated_def)
    with extends_nth [OF Suc.prems] have "h ! a = h0 ! a" by simp
    with assms(2) p a show "well_keyed (h ! a)" by simp
  qed
  from breed_child_returns [OF assms(1) ok, of g] obtain child h3 g3 where
    c: "breed_child parents h g = Inr (child, h3, g3)" by blast
  from breed_child_frame [OF c] have e: "extends h h3" by simp
  have e0: "extends h0 h3" using Suc.prems e by (rule extends_trans)
  from Suc.IH [OF e0, of g3] obtain children h' g' where
    run: "bred_children parents k h3 g3 = Inr (children, h', g')"
    and len: "length children = k" and e': "extends h3 h'"
    by blast
  have step: "bred_children parents (Suc k) h g = Inr (child # children, h', g')"
    using c run by (simp add: bred_children_step del: bred_children.simps)
  have "extends h h'" using e e' by (rule extends_trans)
  with step len show ?case
    by (intro exI [of _ "child # children"] exI [of _ h'] exI [of _ g']) simp
qed

lemma breed_example:
  "breed [[0], [1]] 3
     [[(''num_neurons'', PyInt 4), (''activation'', PyStr ''relu''), (''dropout_rate'', PyNone)],
      [(''num_neurons'', PyInt 8), (''activation'', PyStr ''tanh''),
       (''dropout_rate'', PyFloat (1 / 10))]] (cycle [0, 0, 1, 1, 0, 4503599627370496])
   = Inr ([[0], [1], [2]],
     [[(''num_neurons'', PyInt 4), (''activation'', PyStr ''relu''), (''dropout_rate'', PyNone)],
      [(''num_neurons'', PyInt 8), (''activation'', PyStr ''tanh''),
       (''dropout_rate'', PyFloat (1 / 10))],
      [(''num_neurons'', PyInt 8), (''activation'', PyStr ''tanh''), (''dropout_rate'', PyNone)]], (cycle [0, 0, 1, 1, 0, 4503599627370496]))"
  by (simp add: breed_def breed_loop.simps breed_child_def random_sample2_def Let_def
      crossover_def mutate_def random_random_def random_choice_def keys_def getitem_def
      setitem_def)

lemma breed_example_mutated:
  "breed [[0], [1]] 3
     [[(''num_neurons'', PyInt 4), (''activation'', PyStr ''relu''), (''dropout_rate'', PyNone)],
      [(''num_neurons'', PyInt 8), (''activation'', PyStr ''tanh''),
       (''dropout_rate'', PyFloat (1 / 10))]] (cycle [0, 0, 1, 1, 0, 0, 1, 2, 3])
   = Inr ([[0], [1], [2]],
     [[(''num_neurons'', PyInt 4), (''activation'', PyStr ''relu''), (''dropout_rate'', PyNone)],
      [(''num_neurons'', PyInt 8), (''activation'', PyStr ''tanh''),
       (''dropout_rate'', PyFloat (1 / 10))],
      [(''num_neurons'', PyInt 8), (''activation'', PyStr ''tanh''),
       (''dropout_rate'', PyFloat (3 / 10))]], cycle [0, 0, 1, 1, 0, 0, 1, 2, 3])"
  by (simp add: breed_def breed_loop.simps breed_child_def random_sample2_def Let_def
      crossover_def mutate_def random_random_def random_choice_def keys_def getitem_def
      setitem_def neuron_choices_def activation_choices_def dropout_choices_def)

text \<open>
  Claim C6. For at least two and at most \<open>population_size\<close> parents whose genes are
  allocated and have the three attribute keys, the breeding step returns a next
  generation of exactly \<open>population_size\<close> genomes: first the parents, unchanged and
  in their order, then the children, which are, with the store and the random source
  they leave behind, those of sampling two parents, crossing them over and mutating
  the child, done once for every missing genome on the store and the random source
  of the step itself; and whatever is sampled are the parents at two different
  positions.
\<close>

theorem breed_next_generation:
  assumes "2 \<le> length parents" and "length parents \<le> population_size"
    and "\<forall>p \<in> set parents. allocated h p \<and> (\<forall>a \<in> set p. well_keyed (h ! a))"
  shows "\<exists>children h' g'.
           breed parents population_size h g = Inr (parents @ children, h', g')
           \<and> bred_children parents (population_size - length parents) h g
               = Inr (children, h', g')
           \<and> length (parents @ children) = population_size
           \<and> take (length parents) (parents @ children) = parents
           \<and> (\<forall>g0 parent1 parent2 g1.
                 random_sample2 parents g0 = Inr ((parent1, parent2), g1)
                 \<longrightarrow> (\<exists>i j. i < length parents \<and> j < length parents \<and> i \<noteq> j
                        \<and> parent1 = parents ! i \<and> parent2 = parents ! j))"
proof -
  from bred_children_returns [OF assms(1) assms(3) extends_refl,
      of "population_size - length parents" g]
  obtain children h' g' where
    c: "bred_children parents (population_size - length parents) h g
          = Inr (children, h', g')"
    and l: "length children = population_size - length parents"
    by blast
  have b: "breed parents population_size h g = Inr (parents @ children, h', g')"
    using c by (simp add: breed_def breed_loop_children)
  have n: "length (parents @ children) = population_size"
    using l assms(2) by simp
  have t: "take (length parents) (parents @ children) = parents" by simp
  have s: "\<forall>g0 parent1 parent2 g1.
                 random_sample2 parents g0 = Inr ((parent1, parent2), g1)
                 \<longrightarrow> (\<exists>i j. i < length parents \<and> j < length parents \<and> i \<noteq> j
                        \<and> parent1 = parents ! i \<and> parent2 = parents ! j)"
    using random_sample2_result [of parents] by blast
  show ?thesis
    by (intro exI [of _ children] exI [of _ h'] exI [of _ g'] conjI b c n t s)
qed

theorem breed_next_generation_witness:
  "breed [[0], [1]] 3
     [[(''num_neurons'', PyInt 4), (''activation'', PyStr ''relu''), (''dropout_rate'', PyNone)],
      [(''num_neurons'', PyInt 8), (''activation'', PyStr ''tanh''),
       (''dropout_rate'', PyFloat (1 / 10))]] (cycle [0, 0, 1, 1, 0, 0, 1, 2, 3])
   = Inr ([[0], [1]] @ [[2]],
     [[(''num_neurons'', PyInt 4), (''activation'', PyStr ''relu''), (''dropout_rate'', PyNone)],
      [(''num_neurons'', PyInt 8), (''activation'', PyStr ''tanh''),
       (''dropout_rate'', PyFloat (1 / 10))],
      [(''num_neurons'', PyInt 8), (''activation'', PyStr ''tanh''),
       (''dropout_rate'', PyFloat (3 / 10))]], cycle [0, 0, 1, 1, 0, 0, 1, 2, 3])
   \<and> bred_children [[0], [1]] (3 - length [[0], [1::nat]])
     [[(''num_neurons'', PyInt 4), (''activation'', PyStr ''relu''), (''dropout_rate'', PyNone)],
      [(''num_neurons'', PyInt 8), (''activation'', PyStr ''tanh''),
       (''dropout_rate'', PyFloat (1 / 10))]] (cycle [0, 0, 1, 1, 0, 0, 1, 2, 3])
   = Inr ([[2]],
     [[(''num_neurons'', PyInt 4), (''activation'', PyStr ''relu''), (''dropout_rate'', PyNone)],
      [(''num_neurons'', PyInt 8), (''activation'', PyStr ''tanh''),
       (''dropout_rate'', PyFloat (1 / 10))],
      [(''num_neurons'', PyInt 8), (''activation'', PyStr ''tanh''),
       (''dropout_rate'', PyFloat (3 / 10))]], cycle [0, 0, 1, 1, 0, 0, 1, 2, 3])"
proof -
  define h where "h = [[(''num_neurons'', PyInt 4), (''activation'', PyStr ''relu''), (''dropout_rate'', PyNone)],
      [(''num_neurons'', PyInt 8), (''activation'', PyStr ''tanh''),
       (''dropout_rate'', PyFloat (1 / 10))]]"
  define h3 where "h3 = [[(''num_neurons'', PyInt 4), (''activation'', PyStr ''relu''), (''dropout_rate'', PyNone)],
      [(''num_neurons'', PyInt 8), (''activation'', PyStr ''tanh''),
       (''dropout_rate'', PyFloat (1 / 10))],
      [(''num_neurons'', PyInt 8), (''activation'', PyStr ''tanh''),
       (''dropout_rate'', PyFloat (3 / 10))]]"
  define G :: "nat stream" where "G = cycle [0, 0, 1, 1, 0, 0, 1, 2, 3]"
  have n: "2 \<le> length [[0], [1::nat]]" "length [[0], [1::nat]] \<le> 3" by simp_all
  have ok: "\<forall>p \<in> set [[0], [1]]. allocated h p \<and> (\<forall>a \<in> set p. well_keyed (h ! a))"
    by (auto simp: allocated_def well_keyed_def keys_def attribute_keys_def h_def)
  have ev: "breed [[0], [1]] 3 h G = Inr ([[0], [1]] @ [[2]], h3, G)"
    using breed_example_mutated by (simp add: h_def h3_def G_def)
  from breed_next_generation [OF n ok, of G] obtain children h' g' where
    b: "breed [[0], [1]] 3 h G = Inr ([[0], [1]] @ children, h', g')"
    and c: "bred_children [[0], [1]] (3 - length [[0], [1::nat]]) h G = Inr (children, h', g')"
    by (elim exE conjE)
  from b ev have "children = [[2]]" "h' = h3" "g' = G" by simp_all
  with c have "bred_children [[0], [1]] (3 - length [[0], [1::nat]]) h G = Inr ([[2]], h3, G)"
    by simp
  with ev show ?thesis unfolding h_def h3_def G_def by (rule conjI)
qed

text \<open>
  Claim C9. Breeding never modifies the parents: the store after breeding still holds
  every object of the store before it, unchanged, so the value of every parent is the
  same, and the parents open the next generation. \<^verbatim>\<open>crossover\<close> keeps every
  existing object and makes the child out of newly allocated genes only;
  \<^verbatim>\<open>mutate\<close> returns the genome it was given and changes no object outside it.
\<close>

theorem breeding_keeps_parents:
  assumes "\<forall>p \<in> set parents. allocated h p"
  shows "(\<forall>next_generation h' g'.
            breed parents population_size h g = Inr (next_generation, h', g')
            \<longrightarrow> extends h h'
              \<and> take (length parents) next_generation = parents
              \<and> (\<forall>p \<in> set parents. genome_value h' p = genome_value h p))
         \<and> (\<forall>parent1 parent2 g1 child h2 g2.
              crossover parent1 parent2 h g1 = Inr (child, h2, g2)
              \<longrightarrow> extends h h2 \<and> (\<forall>a \<in> set child. length h \<le> a \<and> a < length h2))
         \<and> (\<forall>child h2 g2 child' h3 g3.
              mutate child h2 g2 = Inr (child', h3, g3)
              \<longrightarrow> child' = child \<and> length h3 = length h2
                \<and> (\<forall>a. a \<notin> set child \<longrightarrow> h3 ! a = h2 ! a))"
proof (intro conjI allI impI)
  fix next_generation h' g'
  assume b: "breed parents population_size h g = Inr (next_generation, h', g')"
  from breed_loop_frame [of parents population_size parents h g next_generation h' g'] b
  obtain children where e: "extends h h'" and n: "next_generation = parents @ children"
    by (auto simp: breed_def)
  show "extends h h'" by (rule e)
  show "take (length parents) next_generation = parents" using n by simp
  show "\<forall>p \<in> set parents. genome_value h' p = genome_value h p"
  proof
    fix p assume "p \<in> set parents"
    with assms have "\<forall>a \<in> set p. a < length h" by (simp add: allocated_def)
    with extends_nth [OF e] show "genome_value h' p = genome_value h p"
      by (simp add: genome_value_def)
  qed
next
  fix parent1 parent2 g1 child h2 g2
  assume "crossover parent1 parent2 h g1 = Inr (child, h2, g2)"
  from crossover_frame [OF this] show "extends h h2"
    and "\<forall>a \<in> set child. length h \<le> a \<and> a < length h2" by simp_all
next
  fix child h2 g2 child' h3 g3
  assume "mutate child h2 g2 = Inr (child', h3, g3)"
  from mutate_frame [OF this] show "child' = child" and "length h3 = length h2"
    and "\<And>a. a \<notin> set child \<Longrightarrow> h3 ! a = h2 ! a" by simp_all
qed

theorem breeding_keeps_parents_witness:
  "genome_value
     [[(''num_neurons'', PyInt 4), (''activation'', PyStr ''relu''), (''dropout_rate'', PyNone)],
      [(''num_neurons'', PyInt 8), (''activation'', PyStr ''tanh''),
       (''dropout_rate'', PyFloat (1 / 10))],
      [(''num_neurons'', PyInt 8), (''activation'', PyStr ''tanh''), (''dropout_rate'', PyNone)]] [0]
   = genome_value
     [[(''num_neurons'', PyInt 4), (''activation'', PyStr ''relu''), (''dropout_rate'', PyNone)],
      [(''num_neurons'', PyInt 8), (''activation'', PyStr ''tanh''),
       (''dropout_rate'', PyFloat (1 / 10))]] [0]
   \<and> genome_value
     [[(''num_neurons'', PyInt 4), (''activation'', PyStr ''relu''), (''dropout_rate'', PyNone)],
      [(''num_neurons'', PyInt 8), (''activation'', PyStr ''tanh''),
       (''dropout_rate'', PyFloat (1 / 10))],
      [(''num_neurons'', PyInt 8), (''activation'', PyStr ''tanh''), (''dropout_rate'', PyNone)]] [1]
   = genome_value
     [[(''num_neurons'', PyInt 4), (''activation'', PyStr ''relu''), (''dropout_rate'', PyNone)],
      [(''num_neurons'', PyInt 8), (''activation'', PyStr ''tanh''),
       (''dropout_rate'', PyFloat (1 / 10))]] [1]"
proof -
  define h where "h = [[(''num_neurons'', PyInt 4), (''activation'', PyStr ''relu''), (''dropout_rate'', PyNone)],
      [(''num_neurons'', PyInt 8), (''activation'', PyStr ''tanh''),
       (''dropout_rate'', PyFloat (1 / 10))]]"
  define h' where "h' = [[(''num_neurons'', PyInt 4), (''activation'', PyStr ''relu''), (''dropout_rate'', PyNone)],
      [(''num_neurons'', PyInt 8), (''activation'', PyStr ''tanh''),
       (''dropout_rate'', PyFloat (1 / 10))],
      [(''num_neurons'', PyInt 8), (''activation'', PyStr ''tanh''), (''dropout_rate'', PyNone)]]"
  have a: "\<forall>p \<in> set [[0], [1]]. allocated h p"
    by (simp add: allocated_def h_def)
  define G :: "nat stream" where "G = cycle [0, 0, 1, 1, 0, 4503599627370496]"
  have ev: "breed [[0], [1]] 3 h G = Inr ([[0], [1], [2]], h', G)"
    using breed_example by (simp add: h_def h'_def G_def)
  note k = breeding_keeps_parents [OF a, of 3 G, THEN conjunct1, rule_format, OF ev]
  from k have "\<forall>p \<in> set [[0], [1]]. genome_value h' p = genome_value h p"
    by (elim conjE)
  then have "genome_value h' [0] = genome_value h [0] \<and> genome_value h' [1] = genome_value h [1]"
    by simp
  then show ?thesis unfolding h_def h'_def .
qed

end
